theory Spec2Isabelle
  imports Main
begin

unbundle bit_operations_syntax

section \<open>The program: AES S-box generation over GF(2^8) and its non-linearity\<close>

text \<open>
  Shallow embedding of \<^verbatim>\<open>sboxgenerator.py\<close>. Python integers are unbounded, so
  every value is an \<^typ>\<open>int\<close>; \<^verbatim>\<open>&\<close>, \<^verbatim>\<open>|\<close>, \<^verbatim>\<open>^\<close>, \<^verbatim>\<open><<\<close> and \<^verbatim>\<open>>>\<close> are
  \<open>AND\<close>, \<open>OR\<close>, \<open>XOR\<close>, \<open>push_bit\<close> and \<open>drop_bit\<close> on \<^typ>\<open>int\<close>, which
  agree with Python on negative numbers as well (two's complement of unbounded width,
  shifting right rounds towards minus infinity). A \<^verbatim>\<open>for _ in range(n)\<close> loop is a
  recursive function on the number of iterations left, with the variables the loop
  assigns as arguments. Printing is left out.
\<close>

subsection \<open>Part 1: GF(2^8) arithmetic\<close>

definition AES_MODULUS :: int where
  "AES_MODULUS = 0x11B"

definition gf_add :: "int \<Rightarrow> int \<Rightarrow> int" where
  "gf_add a b = a XOR b"

text \<open>The body of the loop of \<^verbatim>\<open>gf_mult\<close>, run \<open>n\<close> more times on \<open>p\<close>, \<open>a\<close>, \<open>b\<close>.\<close>

fun gf_mult_loop :: "nat \<Rightarrow> int \<Rightarrow> int \<Rightarrow> int \<Rightarrow> int" where
  "gf_mult_loop 0 p a b = p"
| "gf_mult_loop (Suc n) p a b =
     (let p = (if b AND 1 = 1 then p XOR a else p);
          hi_bit_set = a AND 0x80;
          a = push_bit 1 a AND 0xFF;
          a = (if hi_bit_set \<noteq> 0 then a XOR 0x1B else a);
          b = drop_bit 1 b
      in gf_mult_loop n p a b)"

definition gf_mult :: "int \<Rightarrow> int \<Rightarrow> int" where
  "gf_mult a b = gf_mult_loop 8 0 a b"

subsection \<open>Part 2: multiplicative inverses\<close>

fun gf_inverse_loop :: "nat \<Rightarrow> int \<Rightarrow> int \<Rightarrow> int" where
  "gf_inverse_loop 0 result a = result"
| "gf_inverse_loop (Suc n) result a = gf_inverse_loop n (gf_mult result a) a"

definition gf_inverse :: "int \<Rightarrow> int" where
  "gf_inverse a = (if a = 0 then 0 else gf_inverse_loop 254 1 a)"

subsection \<open>Part 3: the affine transformation\<close>

text \<open>One iteration of the loop of \<^verbatim>\<open>affine_transform\<close>, for the index \<open>i\<close>.\<close>

definition affine_step :: "int \<Rightarrow> int \<Rightarrow> nat \<Rightarrow> int \<Rightarrow> int" where
  "affine_step c b i new_b =
     (let bt = drop_bit i b AND 1;
          bt = bt XOR (drop_bit ((i + 4) mod 8) b AND 1);
          bt = bt XOR (drop_bit ((i + 5) mod 8) b AND 1);
          bt = bt XOR (drop_bit ((i + 6) mod 8) b AND 1);
          bt = bt XOR (drop_bit ((i + 7) mod 8) b AND 1);
          c_bit = drop_bit i c AND 1;
          bt = bt XOR c_bit
      in new_b OR push_bit i bt)"

definition affine_transform :: "int \<Rightarrow> int" where
  "affine_transform byte_val =
     (let c = 0x63; b = byte_val; new_b = 0
      in fold (affine_step c b) [0..<8] new_b)"

subsection \<open>Part 4: the S-box table\<close>

definition generate_sbox :: "int list" where
  "generate_sbox =
     fold (\<lambda>i sbox.
             let inv = gf_inverse (int i);
                 s = affine_transform inv
             in sbox[i := s])
       [0..<256] (replicate 256 0)"

subsection \<open>Part 5: non-linearity\<close>

text \<open>
  Reading a list at an index raises \<^verbatim>\<open>IndexError\<close> in Python when the index is out of
  range; a negative index counts from the end. The analysis reads the table it is given
  at the indices 0 to 255, so a table with fewer entries makes it raise.
\<close>

datatype py_error = IndexError

definition py_index :: "'a list \<Rightarrow> int \<Rightarrow> py_error + 'a" where
  "py_index xs i =
     (if 0 \<le> i \<and> i < int (length xs) then Inr (xs ! nat i)
      else if i < 0 \<and> - int (length xs) \<le> i then Inr (xs ! nat (int (length xs) + i))
      else Inl IndexError)"

text \<open>\<^verbatim>\<open>bin(x).count('1')\<close>: the number of binary digits 1 of the magnitude of \<open>x\<close>.\<close>

fun count_ones :: "nat \<Rightarrow> nat" where
  "count_ones 0 = 0"
| "count_ones (Suc n) = Suc n mod 2 + count_ones (Suc n div 2)"

definition bin_count_ones :: "int \<Rightarrow> int" where
  "bin_count_ones x = int (count_ones (nat \<bar>x\<bar>))"

definition make_parity_table :: "int list" where
  "make_parity_table = map (\<lambda>x. bin_count_ones x mod 2) [0..255]"

text \<open>The innermost loop, over the inputs \<open>x\<close> still to test, counting the matches.\<close>

fun count_matches ::
  "int list \<Rightarrow> int list \<Rightarrow> int \<Rightarrow> int \<Rightarrow> int list \<Rightarrow> int \<Rightarrow> py_error + int" where
  "count_matches parity_table sbox u v [] matches = Inr matches"
| "count_matches parity_table sbox u v (x # xs) matches =
     (let input_masked = u AND x in
      case py_index sbox x of
        Inl e \<Rightarrow> Inl e
      | Inr sx \<Rightarrow>
          (let output_masked = v AND sx in
           case py_index parity_table input_masked of
             Inl e \<Rightarrow> Inl e
           | Inr p_in \<Rightarrow>
               (case py_index parity_table output_masked of
                  Inl e \<Rightarrow> Inl e
                | Inr p_out \<Rightarrow>
                    count_matches parity_table sbox u v xs
                      (if p_in = p_out then matches + 1 else matches))))"

text \<open>The loop over the input masks \<open>u\<close> still to try, for one output mask \<open>v\<close>.\<close>

fun input_mask_loop ::
  "int list \<Rightarrow> int list \<Rightarrow> int \<Rightarrow> int list \<Rightarrow> int \<Rightarrow> py_error + int" where
  "input_mask_loop parity_table sbox v [] max_bias = Inr max_bias"
| "input_mask_loop parity_table sbox v (u # us) max_bias =
     (case count_matches parity_table sbox u v [0..255] 0 of
        Inl e \<Rightarrow> Inl e
      | Inr matches \<Rightarrow>
          (let bias = \<bar>matches - 128\<bar>
           in input_mask_loop parity_table sbox v us
                (if bias > max_bias then bias else max_bias)))"

text \<open>The loop over the output masks \<open>v\<close> still to try.\<close>

fun output_mask_loop ::
  "int list \<Rightarrow> int list \<Rightarrow> int list \<Rightarrow> int \<Rightarrow> py_error + int" where
  "output_mask_loop parity_table sbox [] max_bias = Inr max_bias"
| "output_mask_loop parity_table sbox (v # vs) max_bias =
     (case input_mask_loop parity_table sbox v [1..255] max_bias of
        Inl e \<Rightarrow> Inl e
      | Inr max_bias \<Rightarrow> output_mask_loop parity_table sbox vs max_bias)"

definition calculate_non_linearity :: "int list \<Rightarrow> py_error + int" where
  "calculate_non_linearity sbox =
     (let max_bias = 0;
          parity_table = make_parity_table
      in case output_mask_loop parity_table sbox [1..255] max_bias of
           Inl e \<Rightarrow> Inl e
         | Inr max_bias \<Rightarrow> Inr (128 - max_bias))"
section \<open>Auxiliary notions for the proofs\<close>

text \<open>
  \<open>xtime\<close> is what one iteration of the loop of \<^verbatim>\<open>gf_mult\<close> does to \<open>a\<close>: the
  multiplication by the polynomial \<open>x\<close>. \<open>gf_prod n a b\<close> is what \<open>n\<close> iterations add
  to the accumulator \<open>p\<close>. \<open>is_byte\<close> is membership in the range [0, 255].
\<close>

definition xtime :: "int \<Rightarrow> int" where
  "xtime a = (if a AND 0x80 \<noteq> 0 then (push_bit 1 a AND 0xFF) XOR 0x1B else push_bit 1 a AND 0xFF)"

definition sel :: "bool \<Rightarrow> int \<Rightarrow> int" where
  "sel c t = (if c then t else 0)"

fun gf_prod :: "nat \<Rightarrow> int \<Rightarrow> int \<Rightarrow> int" where
  "gf_prod 0 a b = 0"
| "gf_prod (Suc n) a b = sel (odd b) a XOR gf_prod n (xtime a) (b div 2)"

definition is_byte :: "int \<Rightarrow> bool" where
  "is_byte a = (0 \<le> a \<and> a \<le> 255)"

text \<open>
  The specification of \<^verbatim>\<open>gf_mult\<close> in the words of the claim: the product of two
  polynomials over GF(2), given by their bit patterns, reduced modulo the polynomial
  \<open>AES_MODULUS\<close>. \<open>poly_mult n a b\<close> is the product of \<open>a\<close> and the \<open>n\<close> low-order
  terms of \<open>b\<close>, without reduction. \<open>poly_reduce n x\<close> cancels the terms of degree
  \<open>n + 7\<close> down to 8 of \<open>x\<close> by adding the shifted modulus, as long division does;
  \<open>poly_mod\<close> is the remainder of a polynomial of degree at most 14.
\<close>

fun poly_mult :: "nat \<Rightarrow> int \<Rightarrow> int \<Rightarrow> int" where
  "poly_mult 0 a b = 0"
| "poly_mult (Suc n) a b = poly_mult n a b XOR (if bit b n then push_bit n a else 0)"

fun poly_reduce :: "nat \<Rightarrow> int \<Rightarrow> int" where
  "poly_reduce 0 x = x"
| "poly_reduce (Suc n) x =
     poly_reduce n (if bit x (n + 8) then x XOR push_bit n AES_MODULUS else x)"

definition poly_mod :: "int \<Rightarrow> int" where
  "poly_mod x = poly_reduce 7 x"

text \<open>
  Powers in the field, the list of the successive products \<open>x\<close>, \<open>x * g\<close>,
  \<open>x * g * g\<close>, ... and the check that such a list ends in 1 and holds every
  non-zero byte.
\<close>

fun gf_pow :: "int \<Rightarrow> nat \<Rightarrow> int" where
  "gf_pow a 0 = 1"
| "gf_pow a (Suc n) = gf_mult (gf_pow a n) a"

fun gf_powers :: "nat \<Rightarrow> int \<Rightarrow> int \<Rightarrow> int list" where
  "gf_powers 0 x g = []"
| "gf_powers (Suc n) x g = x # gf_powers n (gf_mult x g) g"

definition generates :: "int list \<Rightarrow> bool" where
  "generates xs = (last xs = 1 \<and> list_all (\<lambda>a. a \<in> set xs) [1..255])"

text \<open>
  Bit \<open>i\<close> of the result of \<^verbatim>\<open>affine_transform\<close> on \<open>b\<close> with the constant \<open>c\<close>, as the
  loop body computes it, and exclusive or on truth values.
\<close>

definition affine_bit :: "int \<Rightarrow> int \<Rightarrow> nat \<Rightarrow> bool" where
  "affine_bit c b i =
     (((((bit b i \<noteq> bit b ((i + 4) mod 8)) \<noteq> bit b ((i + 5) mod 8))
        \<noteq> bit b ((i + 6) mod 8)) \<noteq> bit b ((i + 7) mod 8)) \<noteq> bit c i)"

definition bxor :: "bool \<Rightarrow> bool \<Rightarrow> bool" where
  "bxor a b = (a \<noteq> b)"

text \<open>
  The specification of the non-linearity in the words of the claim: \<open>parity\<close> is the
  entry of the parity table, \<open>matches_count sbox u v\<close> counts the inputs \<open>x\<close> in
  [0, 255] with \<open>parity (u & x) = parity (v & sbox[x])\<close>, \<open>bias\<close> is its distance from
  128 and \<open>max_bias\<close> the maximum of the bias over all pairs of non-zero masks.
\<close>

definition parity :: "int \<Rightarrow> int" where
  "parity x = bin_count_ones x mod 2"

definition matches_count :: "int list \<Rightarrow> int \<Rightarrow> int \<Rightarrow> int" where
  "matches_count sbox u v =
     int (length (filter (\<lambda>x. parity (u AND x) = parity (v AND sbox ! nat x)) [0..255]))"

definition bias :: "int list \<Rightarrow> int \<Rightarrow> int \<Rightarrow> int" where
  "bias sbox u v = \<bar>matches_count sbox u v - 128\<bar>"

definition max_bias :: "int list \<Rightarrow> int" where
  "max_bias sbox = Max ((\<lambda>(u, v). bias sbox u v) ` ({1..255} \<times> {1..255}))"

text \<open>
  A fast Walsh-Hadamard transform, used to bound all 255 biases of one output mask at
  once. \<open>walsh k xs u\<close> is the correlation of the list \<open>xs\<close> of length \<open>2 ^ k\<close> with the
  linear function of mask \<open>u\<close>; \<open>wht_bounded k B xs\<close> runs the transform by sums and
  differences of neighbours and checks that no coefficient exceeds \<open>B\<close> in magnitude;
  \<open>walsh_at\<close> computes one coefficient.
\<close>

fun pair_sums :: "int list \<Rightarrow> int list" where
  "pair_sums (x # y # xs) = (x + y) # pair_sums xs"
| "pair_sums _ = []"

fun pair_diffs :: "int list \<Rightarrow> int list" where
  "pair_diffs (x # y # xs) = (x - y) # pair_diffs xs"
| "pair_diffs _ = []"

fun wht_bounded :: "nat \<Rightarrow> int \<Rightarrow> int list \<Rightarrow> bool" where
  "wht_bounded 0 B xs = list_all (\<lambda>w. \<bar>w\<bar> \<le> B) xs"
| "wht_bounded (Suc k) B xs =
     (wht_bounded k B (pair_sums xs) \<and> wht_bounded k B (pair_diffs xs))"

definition sign :: "bool \<Rightarrow> int" where
  "sign b = (if b then - 1 else 1)"

definition mask_odd :: "nat \<Rightarrow> nat \<Rightarrow> bool" where
  "mask_odd u x = odd (count_ones (u AND x))"

definition walsh :: "nat \<Rightarrow> int list \<Rightarrow> nat \<Rightarrow> int" where
  "walsh k xs u = (\<Sum>x<2 ^ k. sign (mask_odd u x) * xs ! x)"

definition out_sign :: "int \<Rightarrow> int \<Rightarrow> int" where
  "out_sign v y = sign (odd (bin_count_ones (v AND y)))"

text \<open>
  The published tables: the multiplicative inverses in GF(2^8) and the AES S-box.
\<close>

definition aes_inverse_table :: "int list" where
  "aes_inverse_table = [
   0x00, 0x01, 0x8D, 0xF6, 0xCB, 0x52, 0x7B, 0xD1, 0xE8, 0x4F, 0x29, 0xC0, 0xB0, 0xE1, 0xE5, 0xC7,
   0x74, 0xB4, 0xAA, 0x4B, 0x99, 0x2B, 0x60, 0x5F, 0x58, 0x3F, 0xFD, 0xCC, 0xFF, 0x40, 0xEE, 0xB2,
   0x3A, 0x6E, 0x5A, 0xF1, 0x55, 0x4D, 0xA8, 0xC9, 0xC1, 0x0A, 0x98, 0x15, 0x30, 0x44, 0xA2, 0xC2,
   0x2C, 0x45, 0x92, 0x6C, 0xF3, 0x39, 0x66, 0x42, 0xF2, 0x35, 0x20, 0x6F, 0x77, 0xBB, 0x59, 0x19,
   0x1D, 0xFE, 0x37, 0x67, 0x2D, 0x31, 0xF5, 0x69, 0xA7, 0x64, 0xAB, 0x13, 0x54, 0x25, 0xE9, 0x09,
   0xED, 0x5C, 0x05, 0xCA, 0x4C, 0x24, 0x87, 0xBF, 0x18, 0x3E, 0x22, 0xF0, 0x51, 0xEC, 0x61, 0x17,
   0x16, 0x5E, 0xAF, 0xD3, 0x49, 0xA6, 0x36, 0x43, 0xF4, 0x47, 0x91, 0xDF, 0x33, 0x93, 0x21, 0x3B,
   0x79, 0xB7, 0x97, 0x85, 0x10, 0xB5, 0xBA, 0x3C, 0xB6, 0x70, 0xD0, 0x06, 0xA1, 0xFA, 0x81, 0x82,
   0x83, 0x7E, 0x7F, 0x80, 0x96, 0x73, 0xBE, 0x56, 0x9B, 0x9E, 0x95, 0xD9, 0xF7, 0x02, 0xB9, 0xA4,
   0xDE, 0x6A, 0x32, 0x6D, 0xD8, 0x8A, 0x84, 0x72, 0x2A, 0x14, 0x9F, 0x88, 0xF9, 0xDC, 0x89, 0x9A,
   0xFB, 0x7C, 0x2E, 0xC3, 0x8F, 0xB8, 0x65, 0x48, 0x26, 0xC8, 0x12, 0x4A, 0xCE, 0xE7, 0xD2, 0x62,
   0x0C, 0xE0, 0x1F, 0xEF, 0x11, 0x75, 0x78, 0x71, 0xA5, 0x8E, 0x76, 0x3D, 0xBD, 0xBC, 0x86, 0x57,
   0x0B, 0x28, 0x2F, 0xA3, 0xDA, 0xD4, 0xE4, 0x0F, 0xA9, 0x27, 0x53, 0x04, 0x1B, 0xFC, 0xAC, 0xE6,
   0x7A, 0x07, 0xAE, 0x63, 0xC5, 0xDB, 0xE2, 0xEA, 0x94, 0x8B, 0xC4, 0xD5, 0x9D, 0xF8, 0x90, 0x6B,
   0xB1, 0x0D, 0xD6, 0xEB, 0xC6, 0x0E, 0xCF, 0xAD, 0x08, 0x4E, 0xD7, 0xE3, 0x5D, 0x50, 0x1E, 0xB3,
   0x5B, 0x23, 0x38, 0x34, 0x68, 0x46, 0x03, 0x8C, 0xDD, 0x9C, 0x7D, 0xA0, 0xCD, 0x1A, 0x41, 0x1C]"

definition aes_sbox :: "int list" where
  "aes_sbox = [
   0x63, 0x7C, 0x77, 0x7B, 0xF2, 0x6B, 0x6F, 0xC5, 0x30, 0x01, 0x67, 0x2B, 0xFE, 0xD7, 0xAB, 0x76,
   0xCA, 0x82, 0xC9, 0x7D, 0xFA, 0x59, 0x47, 0xF0, 0xAD, 0xD4, 0xA2, 0xAF, 0x9C, 0xA4, 0x72, 0xC0,
   0xB7, 0xFD, 0x93, 0x26, 0x36, 0x3F, 0xF7, 0xCC, 0x34, 0xA5, 0xE5, 0xF1, 0x71, 0xD8, 0x31, 0x15,
   0x04, 0xC7, 0x23, 0xC3, 0x18, 0x96, 0x05, 0x9A, 0x07, 0x12, 0x80, 0xE2, 0xEB, 0x27, 0xB2, 0x75,
   0x09, 0x83, 0x2C, 0x1A, 0x1B, 0x6E, 0x5A, 0xA0, 0x52, 0x3B, 0xD6, 0xB3, 0x29, 0xE3, 0x2F, 0x84,
   0x53, 0xD1, 0x00, 0xED, 0x20, 0xFC, 0xB1, 0x5B, 0x6A, 0xCB, 0xBE, 0x39, 0x4A, 0x4C, 0x58, 0xCF,
   0xD0, 0xEF, 0xAA, 0xFB, 0x43, 0x4D, 0x33, 0x85, 0x45, 0xF9, 0x02, 0x7F, 0x50, 0x3C, 0x9F, 0xA8,
   0x51, 0xA3, 0x40, 0x8F, 0x92, 0x9D, 0x38, 0xF5, 0xBC, 0xB6, 0xDA, 0x21, 0x10, 0xFF, 0xF3, 0xD2,
   0xCD, 0x0C, 0x13, 0xEC, 0x5F, 0x97, 0x44, 0x17, 0xC4, 0xA7, 0x7E, 0x3D, 0x64, 0x5D, 0x19, 0x73,
   0x60, 0x81, 0x4F, 0xDC, 0x22, 0x2A, 0x90, 0x88, 0x46, 0xEE, 0xB8, 0x14, 0xDE, 0x5E, 0x0B, 0xDB,
   0xE0, 0x32, 0x3A, 0x0A, 0x49, 0x06, 0x24, 0x5C, 0xC2, 0xD3, 0xAC, 0x62, 0x91, 0x95, 0xE4, 0x79,
   0xE7, 0xC8, 0x37, 0x6D, 0x8D, 0xD5, 0x4E, 0xA9, 0x6C, 0x56, 0xF4, 0xEA, 0x65, 0x7A, 0xAE, 0x08,
   0xBA, 0x78, 0x25, 0x2E, 0x1C, 0xA6, 0xB4, 0xC6, 0xE8, 0xDD, 0x74, 0x1F, 0x4B, 0xBD, 0x8B, 0x8A,
   0x70, 0x3E, 0xB5, 0x66, 0x48, 0x03, 0xF6, 0x0E, 0x61, 0x35, 0x57, 0xB9, 0x86, 0xC1, 0x1D, 0x9E,
   0xE1, 0xF8, 0x98, 0x11, 0x69, 0xD9, 0x8E, 0x94, 0x9B, 0x1E, 0x87, 0xE9, 0xCE, 0x55, 0x28, 0xDF,
   0x8C, 0xA1, 0x89, 0x0D, 0xBF, 0xE6, 0x42, 0x68, 0x41, 0x99, 0x2D, 0x0F, 0xB0, 0x54, 0xBB, 0x16]"

definition inverse_pairs_ok :: "int list \<Rightarrow> int list \<Rightarrow> bool" where
  "inverse_pairs_ok as bs = list_all2 (\<lambda>a b. gf_mult a b = 1) as bs"

definition aes_mask_ok :: "int \<Rightarrow> bool" where
  "aes_mask_ok v = wht_bounded 8 32 (map (out_sign v) aes_sbox)"

fun walsh_at :: "nat \<Rightarrow> int list \<Rightarrow> nat \<Rightarrow> int" where
  "walsh_at 0 xs u = hd xs"
| "walsh_at (Suc k) xs u =
     walsh_at k (if odd u then pair_diffs xs else pair_sums xs) (u div 2)"

fun mask_parity :: "num \<Rightarrow> num \<Rightarrow> bool" where
  "mask_parity num.One num.One = True"
| "mask_parity num.One (num.Bit0 n) = False"
| "mask_parity num.One (num.Bit1 n) = True"
| "mask_parity (num.Bit0 m) num.One = False"
| "mask_parity (num.Bit0 m) (num.Bit0 n) = mask_parity m n"
| "mask_parity (num.Bit0 m) (num.Bit1 n) = mask_parity m n"
| "mask_parity (num.Bit1 m) num.One = True"
| "mask_parity (num.Bit1 m) (num.Bit0 n) = mask_parity m n"
| "mask_parity (num.Bit1 m) (num.Bit1 n) = (\<not> mask_parity m n)"
section \<open>Field arithmetic\<close>

subsection \<open>The loop of \<^verbatim>\<open>gf_mult\<close> as a sum over the bits of the second operand\<close>

lemma sel_simps: "sel True t = t" "sel False t = 0" "sel c 0 = 0"
  by (simp_all add: sel_def)

lemma sel_neq: "sel (c \<noteq> d) t = sel c t XOR sel d t"
  by (simp add: sel_def)

lemma sel_xor: "sel c (s XOR t) = sel c s XOR sel c t"
  by (simp add: sel_def)

lemma hi_bit_iff: "(a AND 0x80 \<noteq> 0) = bit a 7" for a :: int
proof -
  have "a AND 2 ^ 7 = 0 \<longleftrightarrow> \<not> bit a 7"
    by (rule and_exp_eq_0_iff_not_bit)
  then show ?thesis by simp
qed

lemma xtime_alt: "xtime a = (push_bit 1 a AND 0xFF) XOR sel (bit a 7) 0x1B"
  by (simp add: xtime_def hi_bit_iff sel_def)

lemma xtime_xor: "xtime (a XOR b) = xtime a XOR xtime b"
proof -
  have 1: "push_bit 1 (a XOR b) AND 0xFF = (push_bit 1 a AND 0xFF) XOR (push_bit 1 b AND 0xFF)"
    by (simp only: push_bit_xor bit.conj_xor_distrib2)
  have 2: "sel (bit (a XOR b) 7) 0x1B = sel (bit a 7) 0x1B XOR sel (bit b 7) 0x1B"
    by (simp add: bit_xor_iff sel_def)
  show ?thesis
    unfolding xtime_alt 1 2 by (simp only: ac_simps)
qed

lemma xtime_0: "xtime 0 = 0"
  by (simp add: xtime_def)

lemma is_byte_iff: "is_byte a \<longleftrightarrow> take_bit 8 a = a"
  by (auto simp: is_byte_def take_bit_int_eq_self_iff)

lemma and_255: "a AND 0xFF = take_bit 8 a" for a :: int
  by (simp add: take_bit_eq_mask mask_eq_exp_minus_1)

lemma is_byte_xor: "is_byte a \<Longrightarrow> is_byte b \<Longrightarrow> is_byte (a XOR b)"
  by (simp add: is_byte_iff take_bit_xor)

lemma is_byte_0: "is_byte 0" by (simp add: is_byte_def)

lemma is_byte_sel: "is_byte t \<Longrightarrow> is_byte (sel c t)"
  by (simp add: sel_def is_byte_0)

lemma is_byte_xtime: "is_byte (xtime a)"
  by (simp add: xtime_alt and_255 is_byte_xor is_byte_sel is_byte_iff[of "take_bit 8 _"] is_byte_def[of 27])

lemma gf_mult_loop_prod: "gf_mult_loop n p a b = p XOR gf_prod n a b"
proof (induction n arbitrary: p a b)
  case 0
  show ?case by simp
next
  case (Suc n)
  have odd: "(b AND 1 = 1) = odd b"
    by (simp add: and_one_eq mod_2_eq_odd)
  show ?case
    by (simp add: Suc odd xtime_def Let_def drop_bit_Suc sel_def xor.assoc)
qed

lemma gf_mult_prod: "gf_mult a b = gf_prod 8 a b"
  by (simp add: gf_mult_def gf_mult_loop_prod)


lemma gf_prod_0_right: "gf_prod n a 0 = 0"
  by (induction n arbitrary: a) (simp_all add: sel_simps)

lemma gf_prod_0_left: "gf_prod n 0 b = 0"
  by (induction n arbitrary: b) (simp_all add: sel_simps xtime_0)

lemma gf_prod_xor_right: "gf_prod n a (b XOR c) = gf_prod n a b XOR gf_prod n a c"
proof (induction n arbitrary: a b c)
  case 0
  show ?case by simp
next
  case (Suc n)
  have d: "(b XOR c) div 2 = b div 2 XOR c div 2"
    using drop_bit_xor [of 1 b c] by (simp only: drop_bit_eq_div power_one_right)
  have s: "sel (odd (b XOR c)) a = sel (odd b) a XOR sel (odd c) a"
    by (auto simp: sel_def even_xor_iff)
  show ?case
    unfolding gf_prod.simps d s Suc by (simp only: ac_simps)
qed

lemma gf_prod_xor_left: "gf_prod n (a XOR a') b = gf_prod n a b XOR gf_prod n a' b"
proof (induction n arbitrary: a a' b)
  case 0
  show ?case by simp
next
  case (Suc n)
  show ?case
    unfolding gf_prod.simps xtime_xor sel_xor Suc by (simp only: ac_simps)
qed

lemma xtime_sel: "xtime (sel c a) = sel c (xtime a)"
  by (simp add: sel_def xtime_0)

lemma gf_prod_xtime: "gf_prod n (xtime a) b = xtime (gf_prod n a b)"
  by (induction n arbitrary: a b) (simp_all add: xtime_0 xtime_xor xtime_sel)

lemma gf_prod_funpow_xtime: "gf_prod n ((xtime ^^ i) a) b = (xtime ^^ i) (gf_prod n a b)"
  by (induction i) (simp_all add: gf_prod_xtime)

lemma gf_prod_take_bit: "gf_prod n a (take_bit n b) = gf_prod n a b"
proof (induction n arbitrary: a b)
  case 0
  show ?case by simp
next
  case (Suc n)
  have "take_bit (Suc n) b div 2 = take_bit n (b div 2)"
    by (simp add: take_bit_Suc)
  moreover have "odd (take_bit (Suc n) b) = odd b"
    by (simp add: take_bit_Suc)
  ultimately show ?case
    by (simp add: Suc)
qed

lemma is_byte_gf_prod: "is_byte a \<Longrightarrow> is_byte (gf_prod n a b)"
  by (induction n arbitrary: a b) (simp_all add: is_byte_0 is_byte_xor is_byte_sel is_byte_xtime)

lemma gf_prod_pow2: "gf_prod n a (2 ^ i) = (if i < n then (xtime ^^ i) a else 0)"
proof (induction n arbitrary: a i)
  case 0
  show ?case by simp
next
  case (Suc n)
  show ?case
  proof (cases i)
    case 0
    then show ?thesis by (simp add: sel_simps gf_prod_0_right)
  next
    case (Suc j)
    then show ?thesis by (simp add: sel_simps Suc.IH funpow_swap1)
  qed
qed

lemma take_bit_Suc_xor:
  "take_bit (Suc n) a = take_bit n a XOR sel (bit a n) (2 ^ n)" for a :: int
  by (rule bit_eqI) (auto simp: bit_take_bit_iff bit_xor_iff bit_exp_iff sel_def less_Suc_eq)

lemma is_byte_take_bit: "n \<le> 8 \<Longrightarrow> is_byte (take_bit n a)"
proof -
  assume "n \<le> 8"
  then have "take_bit 8 (take_bit n a) = take_bit n a"
    by (simp add: min_def)
  then show ?thesis by (simp only: is_byte_iff)
qed

lemma is_byte_pow2: "i < 8 \<Longrightarrow> is_byte (2 ^ i)"
proof -
  assume "i < 8"
  then have "take_bit 8 (2 ^ i :: int) = 2 ^ i"
    by (simp add: take_bit_int_eq_self_iff)
  then show ?thesis by (simp only: is_byte_iff)
qed

lemma byte_induct [consumes 1, case_names zero pow2 xor]:
  assumes a: "is_byte a"
    and zero: "P 0"
    and pow2: "\<And>i. i < 8 \<Longrightarrow> P (2 ^ i)"
    and xor: "\<And>x y. is_byte x \<Longrightarrow> is_byte y \<Longrightarrow> P x \<Longrightarrow> P y \<Longrightarrow> P (x XOR y)"
  shows "P a"
proof -
  have "P (take_bit n a)" if "n \<le> 8" for n
    using that
  proof (induction n)
    case 0
    show ?case by (simp add: zero)
  next
    case (Suc n)
    have "P (sel (bit a n) (2 ^ n))"
      using Suc.prems by (simp add: sel_def zero pow2)
    moreover have "is_byte (sel (bit a n) (2 ^ n))"
      using Suc.prems by (simp add: is_byte_sel is_byte_pow2)
    moreover have "is_byte (take_bit n a)" "P (take_bit n a)"
      using Suc by (simp_all add: is_byte_take_bit)
    ultimately show ?case
      unfolding take_bit_Suc_xor by (intro xor)
  qed
  from this [of 8] a show ?thesis
    by (simp add: is_byte_iff)
qed


lemma xtime_pow2: "i < 7 \<Longrightarrow> xtime (2 ^ i) = 2 ^ Suc i"
proof -
  assume i: "i < 7"
  then have "is_byte (2 ^ Suc i)"
    by (intro is_byte_pow2) simp
  then have "take_bit 8 (2 ^ Suc i :: int) = 2 ^ Suc i"
    by (simp only: is_byte_iff)
  moreover have "\<not> bit (2 ^ i :: int) 7"
    using i by (simp add: bit_exp_iff)
  ultimately show ?thesis
    by (simp add: xtime_alt and_255 sel_simps mult.commute)
qed

lemma funpow_xtime_one: "i < 8 \<Longrightarrow> (xtime ^^ i) 1 = 2 ^ i"
  by (induction i) (simp_all add: xtime_pow2)

lemma gf_prod_one_right: "gf_prod 8 a 1 = a"
  using gf_prod_pow2 [of 8 a 0] by simp

lemma gf_prod_one_left: "is_byte b \<Longrightarrow> gf_prod 8 1 b = b"
proof (induction b rule: byte_induct)
  case zero
  show ?case by (rule gf_prod_0_right)
next
  case (pow2 i)
  then show ?case by (simp add: gf_prod_pow2 funpow_xtime_one)
next
  case (xor x y)
  then show ?case by (simp add: gf_prod_xor_right)
qed

lemma gf_prod_pow2_left: "i < 8 \<Longrightarrow> is_byte b \<Longrightarrow> gf_prod 8 (2 ^ i) b = (xtime ^^ i) b"
  using gf_prod_funpow_xtime [of 8 i 1 b]
  by (simp add: funpow_xtime_one gf_prod_one_left)

lemma gf_prod_commute: "is_byte a \<Longrightarrow> is_byte b \<Longrightarrow> gf_prod 8 a b = gf_prod 8 b a"
proof (induction a rule: byte_induct)
  case zero
  show ?case by (simp add: gf_prod_0_right gf_prod_0_left)
next
  case (pow2 i)
  then show ?case by (simp add: gf_prod_pow2 gf_prod_pow2_left)
next
  case (xor x y)
  then show ?case by (simp add: gf_prod_xor_right gf_prod_xor_left)
qed

lemma gf_prod_xtime_right:
  assumes "is_byte a" "is_byte b"
  shows "gf_prod 8 a (xtime b) = xtime (gf_prod 8 a b)"
proof -
  have "gf_prod 8 a (xtime b) = gf_prod 8 (xtime b) a"
    using assms by (simp add: gf_prod_commute is_byte_xtime)
  also have "\<dots> = xtime (gf_prod 8 b a)"
    by (rule gf_prod_xtime)
  also have "gf_prod 8 b a = gf_prod 8 a b"
    using assms by (simp add: gf_prod_commute)
  finally show ?thesis .
qed

lemma is_byte_funpow_xtime: "is_byte b \<Longrightarrow> is_byte ((xtime ^^ i) b)"
  by (induction i) (simp_all add: is_byte_xtime)

lemma gf_prod_funpow_xtime_right:
  "is_byte a \<Longrightarrow> is_byte b \<Longrightarrow> gf_prod 8 a ((xtime ^^ i) b) = (xtime ^^ i) (gf_prod 8 a b)"
  by (induction i) (simp_all add: gf_prod_xtime_right is_byte_funpow_xtime)

lemma gf_prod_assoc:
  assumes "is_byte a" "is_byte b" "is_byte c"
  shows "gf_prod 8 (gf_prod 8 a b) c = gf_prod 8 a (gf_prod 8 b c)"
  using assms(3,1,2)
proof (induction c rule: byte_induct)
  case zero
  show ?case by (simp add: gf_prod_0_right)
next
  case (pow2 i)
  then show ?case by (simp add: gf_prod_pow2 gf_prod_funpow_xtime_right)
next
  case (xor x y)
  then show ?case by (simp add: gf_prod_xor_right)
qed

lemma is_byte_gf_mult: "is_byte a \<Longrightarrow> is_byte (gf_mult a b)"
  by (simp add: gf_mult_prod is_byte_gf_prod)

lemma gf_mult_commute: "is_byte a \<Longrightarrow> is_byte b \<Longrightarrow> gf_mult a b = gf_mult b a"
  by (simp add: gf_mult_prod gf_prod_commute)

lemma gf_mult_assoc:
  "is_byte a \<Longrightarrow> is_byte b \<Longrightarrow> is_byte c \<Longrightarrow>
    gf_mult (gf_mult a b) c = gf_mult a (gf_mult b c)"
  by (simp add: gf_mult_prod gf_prod_assoc)

lemma gf_mult_one_right: "gf_mult a 1 = a"
  by (simp add: gf_mult_prod gf_prod_one_right)

lemma gf_mult_one_left: "is_byte a \<Longrightarrow> gf_mult 1 a = a"
  by (simp add: gf_mult_prod gf_prod_one_left)

lemma gf_mult_zero_right: "gf_mult a 0 = 0"
  by (simp add: gf_mult_prod gf_prod_0_right)

lemma gf_mult_zero_left: "gf_mult 0 a = 0"
  by (simp add: gf_mult_prod gf_prod_0_left)

text \<open>
  Claim C6. Field multiplication is commutative: for all \<open>a\<close> and \<open>b\<close> in [0, 255],
  \<^verbatim>\<open>gf_mult(a, b) == gf_mult(b, a)\<close>.
\<close>

theorem gf_mult_commutative:
  "0 \<le> a \<Longrightarrow> a \<le> 255 \<Longrightarrow> 0 \<le> b \<Longrightarrow> b \<le> 255 \<Longrightarrow> gf_mult a b = gf_mult b a"
  by (rule gf_mult_commute) (simp_all add: is_byte_def)

theorem gf_mult_commutative_witness:
  "(0::int) \<le> 0x57 \<and> (0x57::int) \<le> 255 \<and> (0::int) \<le> 0x83 \<and> (0x83::int) \<le> 255
    \<and> gf_mult 0x57 0x83 = gf_mult 0x83 0x57"
  using gf_mult_commutative [of "0x57" "0x83"] by simp

text \<open>
  Claim C10. \<^verbatim>\<open>gf_mult\<close> reads only the low 8 bits of its second operand: for every
  \<open>a\<close> in [0, 255] and every non-negative integer \<open>b\<close>,
  \<^verbatim>\<open>gf_mult(a, b) == gf_mult(a, b mod 256)\<close>.
\<close>

theorem gf_mult_low_byte:
  "0 \<le> a \<Longrightarrow> a \<le> 255 \<Longrightarrow> 0 \<le> b \<Longrightarrow> gf_mult a b = gf_mult a (b mod 256)"
  using gf_prod_take_bit [of 8 a b] by (simp add: gf_mult_prod take_bit_eq_mod)

theorem gf_mult_low_byte_witness:
  "(0::int) \<le> 0x57 \<and> (0x57::int) \<le> 255 \<and> (0::int) \<le> 0x1283
    \<and> gf_mult 0x57 0x1283 = gf_mult 0x57 (0x1283 mod 256)"
  using gf_mult_low_byte [of "0x57" "0x1283"] by simp

subsection \<open>\<^verbatim>\<open>gf_mult\<close> is the polynomial product modulo the AES polynomial\<close>

lemma poly_mult_sel: "poly_mult (Suc n) a b = poly_mult n a b XOR sel (bit b n) (push_bit n a)"
  by (simp add: sel_def)

lemma poly_mult_xor_right: "poly_mult n a (b XOR c) = poly_mult n a b XOR poly_mult n a c"
proof (induction n)
  case 0
  show ?case by simp
next
  case (Suc n)
  have "sel (bit (b XOR c) n) (push_bit n a)
      = sel (bit b n) (push_bit n a) XOR sel (bit c n) (push_bit n a)"
    by (auto simp: bit_xor_iff sel_def)
  then show ?case
    unfolding poly_mult_sel Suc by (simp only: ac_simps)
qed

lemma poly_mult_xor_left: "poly_mult n (a XOR a') b = poly_mult n a b XOR poly_mult n a' b"
proof (induction n)
  case 0
  show ?case by simp
next
  case (Suc n)
  show ?case
    unfolding poly_mult_sel Suc push_bit_xor sel_xor by (simp only: ac_simps)
qed

lemma poly_mult_0_left: "poly_mult n 0 b = 0"
  by (induction n) simp_all

lemma poly_mult_0_right: "poly_mult n a 0 = 0"
  by (induction n) simp_all

lemma poly_reduce_xor: "poly_reduce n (x XOR y) = poly_reduce n x XOR poly_reduce n y"
proof (induction n arbitrary: x y)
  case 0
  show ?case by simp
next
  case (Suc n)
  have "(if bit (x XOR y) i then (x XOR y) XOR m else x XOR y)
      = (if bit x i then x XOR m else x) XOR (if bit y i then y XOR m else y)" for m :: int and i
    by (simp add: bit_xor_iff ac_simps)
  then show ?case
    by (simp only: poly_reduce.simps Suc)
qed

lemma poly_reduce_0: "poly_reduce n 0 = 0"
  by (induction n) simp_all

lemma poly_mod_xor: "poly_mod (x XOR y) = poly_mod x XOR poly_mod y"
  by (simp add: poly_mod_def poly_reduce_xor)

lemma poly_mod_0: "poly_mod 0 = 0"
  by (simp add: poly_mod_def poly_reduce_0)

lemma poly_mult_pow2: "poly_mult n a (2 ^ j) = (if j < n then push_bit j a else 0)"
  by (induction n) (auto simp: bit_exp_iff less_Suc_eq)

lemma funpow_xtime_xor: "(xtime ^^ j) (a XOR b) = (xtime ^^ j) a XOR (xtime ^^ j) b"
  by (induction j) (simp_all add: xtime_xor)

lemma funpow_xtime_0: "(xtime ^^ j) 0 = 0"
  by (induction j) (simp_all add: xtime_0)

lemma xtime_powers: "map (\<lambda>k. (xtime ^^ k) 1) [0..<15] = map (\<lambda>k. poly_mod (2 ^ k)) [0..<15]"
  by (simp add: upt_rec [of _ "numeral _"] upt_rec [of 0] eval_nat_numeral xtime_def poly_mod_def AES_MODULUS_def)

lemma xtime_power_mod:
  assumes "k < 15"
  shows "(xtime ^^ k) 1 = poly_mod (2 ^ k)"
proof -
  have "map (\<lambda>k. (xtime ^^ k) 1) [0..<15] ! k = map (\<lambda>k. poly_mod (2 ^ k)) [0..<15] ! k"
    by (simp only: xtime_powers)
  with assms show ?thesis by simp
qed

lemma funpow_xtime_mod:
  assumes "is_byte a" "j < 8"
  shows "(xtime ^^ j) a = poly_mod (push_bit j a)"
  using assms
proof (induction a rule: byte_induct)
  case zero
  show ?case by (simp add: funpow_xtime_0 poly_mod_0)
next
  case (pow2 i)
  have "(xtime ^^ j) (2 ^ i) = (xtime ^^ j) ((xtime ^^ i) 1)"
    using pow2 by (simp add: funpow_xtime_one)
  also have "\<dots> = (xtime ^^ (j + i)) 1"
    by (simp add: funpow_add)
  also have "\<dots> = poly_mod (2 ^ (j + i))"
    using pow2 by (intro xtime_power_mod) simp
  finally show ?case
    by (simp add: push_bit_eq_mult power_add mult.commute)
next
  case (xor x y)
  then show ?case by (simp add: funpow_xtime_xor push_bit_xor poly_mod_xor)
qed

lemma gf_mult_poly:
  assumes "is_byte a" "is_byte b"
  shows "gf_mult a b = poly_mod (poly_mult 8 a b)"
  using assms(2,1)
proof (induction b rule: byte_induct)
  case zero
  show ?case by (simp add: gf_mult_zero_right poly_mult_0_right poly_mod_0)
next
  case (pow2 j)
  then show ?case by (simp add: gf_mult_prod gf_prod_pow2 poly_mult_pow2 funpow_xtime_mod)
next
  case (xor x y)
  then show ?case by (simp add: gf_mult_prod gf_prod_xor_right poly_mult_xor_right poly_mod_xor)
qed

text \<open>
  Claim C5. For all \<open>a\<close> and \<open>b\<close> in [0, 255], \<^verbatim>\<open>gf_mult(a, b)\<close> is the product of the
  polynomials \<open>a\<close> and \<open>b\<close> over GF(2) reduced modulo \<open>x^8 + x^4 + x^3 + x + 1\<close>
  (the constant \<open>0x11B\<close>), and the result lies in [0, 255].
\<close>

theorem gf_mult_polynomial_product:
  "0 \<le> a \<Longrightarrow> a \<le> 255 \<Longrightarrow> 0 \<le> b \<Longrightarrow> b \<le> 255 \<Longrightarrow>
    gf_mult a b = poly_mod (poly_mult 8 a b) \<and> 0 \<le> gf_mult a b \<and> gf_mult a b \<le> 255"
  using gf_mult_poly [of a b] is_byte_gf_mult [of a b] by (simp add: is_byte_def)

theorem gf_mult_polynomial_product_witness:
  "(0::int) \<le> 0x57 \<and> (0x57::int) \<le> 255 \<and> (0::int) \<le> 0x83 \<and> (0x83::int) \<le> 255
    \<and> gf_mult 0x57 0x83 = poly_mod (poly_mult 8 0x57 0x83)
    \<and> 0 \<le> gf_mult 0x57 0x83 \<and> gf_mult 0x57 0x83 \<le> 255"
  using gf_mult_polynomial_product [of "0x57" "0x83"] by simp

subsection \<open>Powers, the generator 3 and the inverse\<close>

lemma is_byte_1: "is_byte 1"
  by (simp add: is_byte_def)

lemma is_byte_gf_pow: "is_byte a \<Longrightarrow> is_byte (gf_pow a n)"
  by (induction n) (simp_all add: is_byte_1 is_byte_gf_mult)

lemma gf_pow_add:
  "is_byte a \<Longrightarrow> gf_pow a (m + n) = gf_mult (gf_pow a m) (gf_pow a n)"
proof (induction n)
  case 0
  show ?case by (simp add: gf_mult_one_right)
next
  case (Suc n)
  then show ?case
    by (simp add: gf_mult_assoc is_byte_gf_pow)
qed

lemma gf_pow_mult:
  "is_byte a \<Longrightarrow> gf_pow (gf_pow a m) n = gf_pow a (m * n)"
proof (induction n)
  case 0
  show ?case by simp
next
  case (Suc n)
  have "gf_pow (gf_pow a m) (Suc n) = gf_mult (gf_pow a (m * n)) (gf_pow a m)"
    using Suc by simp
  also have "\<dots> = gf_pow a (m * n + m)"
    using Suc.prems by (simp only: gf_pow_add)
  finally show ?case by (simp add: add.commute)
qed

lemma gf_pow_one: "gf_pow 1 n = 1"
  by (induction n) (simp_all add: gf_mult_one_right)

lemma gf_inverse_loop_pow:
  "is_byte a \<Longrightarrow> is_byte r \<Longrightarrow> gf_inverse_loop n r a = gf_mult r (gf_pow a n)"
proof (induction n arbitrary: r)
  case 0
  show ?case by (simp add: gf_mult_one_right)
next
  case (Suc n)
  have "gf_inverse_loop (Suc n) r a = gf_mult (gf_mult r a) (gf_pow a n)"
    using Suc by (simp add: is_byte_gf_mult)
  also have "\<dots> = gf_mult r (gf_mult a (gf_pow a n))"
    using Suc.prems by (simp add: gf_mult_assoc is_byte_gf_pow)
  also have "gf_mult a (gf_pow a n) = gf_pow a (Suc n)"
    using Suc.prems by (simp add: gf_mult_commute is_byte_gf_pow)
  finally show ?case .
qed

lemma gf_inverse_pow: "is_byte a \<Longrightarrow> a \<noteq> 0 \<Longrightarrow> gf_inverse a = gf_pow a 254"
  by (simp add: gf_inverse_def gf_inverse_loop_pow is_byte_1 gf_mult_one_left is_byte_gf_pow)

lemma gf_powers_map:
  "is_byte g \<Longrightarrow> gf_powers n (gf_pow g m) g = map (\<lambda>k. gf_pow g (m + k)) [0..<n]"
proof (induction n arbitrary: m)
  case 0
  show ?case by simp
next
  case (Suc n)
  have "gf_powers (Suc n) (gf_pow g m) g = gf_pow g m # gf_powers n (gf_pow g (Suc m)) g"
    by simp
  also have "\<dots> = gf_pow g m # map (\<lambda>k. gf_pow g (Suc m + k)) [0..<n]"
    using Suc.IH [of "Suc m"] Suc.prems by (simp only:)
  also have "\<dots> = map (\<lambda>k. gf_pow g (m + k)) (0 # map Suc [0..<n])"
    by (simp add: comp_def)
  also have "0 # map Suc [0..<n] = [0..<Suc n]"
    by (simp add: upt_conv_Cons map_Suc_upt del: upt_Suc)
  finally show ?case .
qed


lemma gf_powers_numeral:
  "gf_powers (numeral k) x g = x # gf_powers (pred_numeral k) (gf_mult x g) g"
  by (simp add: numeral_eq_Suc)

lemma gf_mult_3: "gf_mult x 3 = x XOR xtime x"
proof -
  have "gf_prod 8 x 3 = x XOR xtime x"
    by (simp add: eval_nat_numeral sel_simps gf_prod_0_right)
  then show ?thesis by (simp only: gf_mult_prod)
qed

lemma upto_from_1: "[1..numeral k] = 1 # [2..numeral k]"
  by (subst upto.simps) simp

lemma generator_3: "generates (gf_powers 256 1 3)"
  unfolding generates_def
  by (simp add: gf_powers_numeral gf_mult_3 xtime_def upto_from_1)


lemma is_byte_3: "is_byte 3"
  by (simp add: is_byte_def)

lemma gf_powers_3: "gf_powers n 1 3 = map (gf_pow 3) [0..<n]"
  using gf_powers_map [OF is_byte_3, of n 0] by simp

lemma gf_pow_3_255: "gf_pow 3 255 = 1"
proof -
  have "last (gf_powers 256 1 3) = 1"
    using generator_3 by (simp add: generates_def)
  then show ?thesis
    by (simp add: gf_powers_3 last_map)
qed

lemma byte_is_power_of_3:
  assumes "is_byte a" "a \<noteq> 0"
  shows "\<exists>k. a = gf_pow 3 k"
proof -
  have "a \<in> set [1..255]"
    using assms by (simp add: is_byte_def)
  moreover have "\<forall>a\<in>set [1..255]. a \<in> set (gf_powers 256 1 3)"
    using generator_3 by (simp add: generates_def list_all_iff)
  ultimately have "a \<in> set (map (gf_pow 3) [0..<256])"
    by (simp only: gf_powers_3)
  then show ?thesis by auto
qed

lemma gf_pow_255:
  assumes "is_byte a" "a \<noteq> 0"
  shows "gf_pow a 255 = 1"
proof -
  obtain k where k: "a = gf_pow 3 k"
    using byte_is_power_of_3 [OF assms] ..
  have "gf_pow a 255 = gf_pow 3 (255 * k)"
    by (simp add: k gf_pow_mult is_byte_3 mult.commute)
  also have "\<dots> = gf_pow (gf_pow 3 255) k"
    by (simp add: gf_pow_mult is_byte_3)
  finally show ?thesis
    by (simp add: gf_pow_3_255 gf_pow_one)
qed

lemma gf_pow_Suc_left: "is_byte a \<Longrightarrow> gf_mult a (gf_pow a n) = gf_pow a (Suc n)"
  by (simp add: gf_mult_commute is_byte_gf_pow)

lemma gf_mult_inverse:
  assumes "is_byte a" "a \<noteq> 0"
  shows "gf_mult a (gf_inverse a) = 1"
proof -
  have "gf_mult a (gf_inverse a) = gf_mult a (gf_pow a 254)"
    using gf_inverse_pow [OF assms] by (rule arg_cong)
  also have "\<dots> = gf_pow a (Suc 254)"
    using assms(1) by (rule gf_pow_Suc_left)
  finally have "gf_mult a (gf_inverse a) = gf_pow a (Suc 254)" .
  then show ?thesis
    using gf_pow_255 [OF assms] by simp
qed

lemma is_byte_gf_inverse: "is_byte a \<Longrightarrow> is_byte (gf_inverse a)"
proof (cases "a = 0")
  case True
  then show ?thesis by (simp add: gf_inverse_def is_byte_0)
next
  case False
  assume "is_byte a"
  with False show ?thesis by (simp add: gf_inverse_pow is_byte_gf_pow)
qed

lemma gf_inverse_nonzero:
  assumes "is_byte a" "a \<noteq> 0"
  shows "gf_inverse a \<noteq> 0"
proof
  assume "gf_inverse a = 0"
  with gf_mult_inverse [OF assms] show False
    by (simp add: gf_mult_zero_right)
qed

lemma gf_inverse_unique:
  assumes "is_byte a" "is_byte b" "gf_mult a b = 1"
  shows "gf_inverse a = b"
proof -
  have a0: "a \<noteq> 0"
    using assms(3) by (auto simp: gf_mult_zero_left)
  have "b = gf_mult b (gf_mult a (gf_inverse a))"
    by (simp add: gf_mult_inverse [OF assms(1) a0] gf_mult_one_right)
  also have "\<dots> = gf_mult (gf_mult b a) (gf_inverse a)"
    using assms by (simp add: gf_mult_assoc is_byte_gf_inverse)
  also have "gf_mult b a = 1"
    using assms by (simp add: gf_mult_commute)
  finally show ?thesis
    using assms(1) by (simp add: gf_mult_one_left is_byte_gf_inverse)
qed

lemma gf_inverse_involution:
  assumes "is_byte a"
  shows "gf_inverse (gf_inverse a) = a"
proof (cases "a = 0")
  case True
  then show ?thesis by (simp add: gf_inverse_def)
next
  case False
  have "gf_mult (gf_inverse a) a = 1"
    using gf_mult_inverse [OF assms False] assms
    by (simp add: gf_mult_commute is_byte_gf_inverse)
  then show ?thesis
    using assms by (intro gf_inverse_unique) (simp_all add: is_byte_gf_inverse)
qed

text \<open>
  Claim C4. The multiplicative-inverse contract: for every \<open>a\<close> in [1, 255],
  \<^verbatim>\<open>gf_mult(a, gf_inverse(a)) == 1\<close>, and \<^verbatim>\<open>gf_inverse(0) == 0\<close>.
\<close>

theorem gf_inverse_contract:
  "(1 \<le> a \<and> a \<le> 255 \<longrightarrow> gf_mult a (gf_inverse a) = 1) \<and> gf_inverse 0 = 0"
  using gf_mult_inverse [of a] by (simp add: is_byte_def gf_inverse_def)

theorem gf_inverse_contract_witness:
  "(1::int) \<le> 0x53 \<and> (0x53::int) \<le> 255 \<and> gf_mult 0x53 (gf_inverse 0x53) = 1
    \<and> gf_inverse 0 = 0"
  using gf_inverse_contract [of "0x53"] by simp

text \<open>
  Claim C8. \<^verbatim>\<open>gf_inverse\<close> is an involution on the field: for every \<open>a\<close> in [0, 255],
  \<^verbatim>\<open>gf_inverse(gf_inverse(a)) == a\<close>.
\<close>

theorem gf_inverse_involutive:
  "0 \<le> a \<Longrightarrow> a \<le> 255 \<Longrightarrow> gf_inverse (gf_inverse a) = a"
  by (rule gf_inverse_involution) (simp add: is_byte_def)

theorem gf_inverse_involutive_witness:
  "(0::int) \<le> 0x53 \<and> (0x53::int) \<le> 255 \<and> gf_inverse (gf_inverse 0x53) = 0x53"
  using gf_inverse_involutive [of "0x53"] by simp

section \<open>The affine transformation\<close>

lemma drop_bit_and_1: "drop_bit k b AND 1 = of_bool (bit b k)" for b :: int
  by (simp add: and_one_eq bit_iff_odd_drop_bit mod_2_eq_odd)

lemma of_bool_xor: "of_bool p XOR of_bool q = (of_bool (p \<noteq> q) :: int)"
  by (cases p; cases q) simp_all

lemma affine_step_bit:
  "affine_step c b i new_b = new_b OR push_bit i (of_bool (affine_bit c b i))"
  by (simp only: affine_step_def Let_def drop_bit_and_1 of_bool_xor affine_bit_def)

lemma bit_affine_fold:
  "bit (fold (affine_step c b) [0..<m] 0) n \<longleftrightarrow> n < m \<and> affine_bit c b n"
proof (induction m)
  case 0
  show ?case by simp
next
  case (Suc m)
  have "bit (push_bit m (of_bool (affine_bit c b m) :: int)) n \<longleftrightarrow> n = m \<and> affine_bit c b m"
    by (auto simp: bit_push_bit_iff bit_of_bool_iff)
  with Suc show ?case
    by (auto simp: affine_step_bit bit_or_iff less_Suc_eq)
qed

lemma bit_affine_transform:
  "bit (affine_transform b) n \<longleftrightarrow> n < 8 \<and> affine_bit 0x63 b n"
  by (simp add: affine_transform_def bit_affine_fold)

lemma is_byte_bit: "is_byte a \<longleftrightarrow> (\<forall>n. bit a n \<longrightarrow> n < 8)"
proof -
  have "take_bit 8 a = a \<longleftrightarrow> (\<forall>n. bit a n \<longrightarrow> n < 8)"
    by (auto simp: bit_eq_iff bit_take_bit_iff)
  then show ?thesis by (simp only: is_byte_iff)
qed

lemma is_byte_affine_transform: "is_byte (affine_transform b)"
  by (simp add: is_byte_bit bit_affine_transform)

lemma bxor_ac:
  "bxor (bxor a b) c = bxor a (bxor b c)"
  "bxor a b = bxor b a"
  "bxor a (bxor b c) = bxor b (bxor a c)"
  by (auto simp: bxor_def)

lemma bxor_cancel:
  "bxor a a = False" "bxor a (bxor a b) = b" "bxor a False = a" "bxor False a = a"
  by (auto simp: bxor_def)

lemma c63_bits:
  "bit (0x63 :: int) 0 = True" "bit (0x63 :: int) 1 = True" "bit (0x63 :: int) 2 = False"
  "bit (0x63 :: int) 3 = False" "bit (0x63 :: int) 4 = False" "bit (0x63 :: int) 5 = True"
  "bit (0x63 :: int) 6 = True" "bit (0x63 :: int) 7 = False"
  by simp_all

lemma mod8:
  "(0 + 4) mod 8 = (4::nat)" "(0 + 5) mod 8 = (5::nat)" "(0 + 6) mod 8 = (6::nat)" "(0 + 7) mod 8 = (7::nat)"
  "(1 + 4) mod 8 = (5::nat)" "(1 + 5) mod 8 = (6::nat)" "(1 + 6) mod 8 = (7::nat)" "(1 + 7) mod 8 = (0::nat)"
  "(2 + 4) mod 8 = (6::nat)" "(2 + 5) mod 8 = (7::nat)" "(2 + 6) mod 8 = (0::nat)" "(2 + 7) mod 8 = (1::nat)"
  "(3 + 4) mod 8 = (7::nat)" "(3 + 5) mod 8 = (0::nat)" "(3 + 6) mod 8 = (1::nat)" "(3 + 7) mod 8 = (2::nat)"
  "(4 + 4) mod 8 = (0::nat)" "(4 + 5) mod 8 = (1::nat)" "(4 + 6) mod 8 = (2::nat)" "(4 + 7) mod 8 = (3::nat)"
  "(5 + 4) mod 8 = (1::nat)" "(5 + 5) mod 8 = (2::nat)" "(5 + 6) mod 8 = (3::nat)" "(5 + 7) mod 8 = (4::nat)"
  "(6 + 4) mod 8 = (2::nat)" "(6 + 5) mod 8 = (3::nat)" "(6 + 6) mod 8 = (4::nat)" "(6 + 7) mod 8 = (5::nat)"
  "(7 + 4) mod 8 = (3::nat)" "(7 + 5) mod 8 = (4::nat)" "(7 + 6) mod 8 = (5::nat)" "(7 + 7) mod 8 = (6::nat)"
  by simp_all

lemma affine_bit_invert:
  "bit x 0 = (((affine_bit 0x63 x 2 \<noteq> affine_bit 0x63 x 5) \<noteq> affine_bit 0x63 x 7) \<noteq> True)"
  "bit x 1 = (((affine_bit 0x63 x 3 \<noteq> affine_bit 0x63 x 6) \<noteq> affine_bit 0x63 x 0) \<noteq> False)"
  "bit x 2 = (((affine_bit 0x63 x 4 \<noteq> affine_bit 0x63 x 7) \<noteq> affine_bit 0x63 x 1) \<noteq> True)"
  "bit x 3 = (((affine_bit 0x63 x 5 \<noteq> affine_bit 0x63 x 0) \<noteq> affine_bit 0x63 x 2) \<noteq> False)"
  "bit x 4 = (((affine_bit 0x63 x 6 \<noteq> affine_bit 0x63 x 1) \<noteq> affine_bit 0x63 x 3) \<noteq> False)"
  "bit x 5 = (((affine_bit 0x63 x 7 \<noteq> affine_bit 0x63 x 2) \<noteq> affine_bit 0x63 x 4) \<noteq> False)"
  "bit x 6 = (((affine_bit 0x63 x 0 \<noteq> affine_bit 0x63 x 3) \<noteq> affine_bit 0x63 x 5) \<noteq> False)"
  "bit x 7 = (((affine_bit 0x63 x 1 \<noteq> affine_bit 0x63 x 4) \<noteq> affine_bit 0x63 x 6) \<noteq> False)"
  unfolding affine_bit_def mod8 c63_bits bxor_def [symmetric]
  by (simp_all only: bxor_ac bxor_cancel)

lemma affine_transform_inj:
  assumes "is_byte x" "is_byte y" "affine_transform x = affine_transform y"
  shows "x = y"
proof (rule bit_eqI)
  fix n
  have eq: "affine_bit 0x63 x i = affine_bit 0x63 y i" if "i < 8" for i
    using assms(3) that bit_affine_transform [of x i] bit_affine_transform [of y i] by simp
  have e: "affine_bit 0x63 x 0 = affine_bit 0x63 y 0" "affine_bit 0x63 x 1 = affine_bit 0x63 y 1"
    "affine_bit 0x63 x 2 = affine_bit 0x63 y 2" "affine_bit 0x63 x 3 = affine_bit 0x63 y 3"
    "affine_bit 0x63 x 4 = affine_bit 0x63 y 4" "affine_bit 0x63 x 5 = affine_bit 0x63 y 5"
    "affine_bit 0x63 x 6 = affine_bit 0x63 y 6" "affine_bit 0x63 x 7 = affine_bit 0x63 y 7"
    by (simp_all add: eq)
  have b: "bit x i = bit y i" if "i < 8" for i
  proof -
    from that have "i \<in> {0, 1, 2, 3, 4, 5, 6, 7}" by auto
    then show ?thesis
      by (elim insertE emptyE) (simp_all only: affine_bit_invert [of x] affine_bit_invert [of y] e)
  qed
  show "bit x n = bit y n"
  proof (cases "n < 8")
    case True
    then show ?thesis by (rule b)
  next
    case False
    with assms(1,2) show ?thesis by (auto simp: is_byte_bit)
  qed
qed

lemma bytes_set: "{a. is_byte a} = {0..255}"
  by (auto simp: is_byte_def)

lemma inj_on_affine_transform: "inj_on affine_transform {0..255}"
  by (rule inj_onI) (auto intro: affine_transform_inj simp: is_byte_def)

lemma affine_transform_image: "affine_transform ` {0..255} = {0..255}"
proof (rule card_subset_eq)
  show "finite {0..255::int}" by simp
  show "affine_transform ` {0..255} \<subseteq> {0..255}"
    using is_byte_affine_transform by (auto simp: is_byte_def)
  show "card (affine_transform ` {0..255}) = card {0..255::int}"
    by (rule card_image) (rule inj_on_affine_transform)
qed

text \<open>
  Claim C9. \<^verbatim>\<open>affine_transform\<close> is a bijection from [0, 255] onto [0, 255]: its
  output always lies in [0, 255], and distinct inputs in [0, 255] map to distinct
  outputs.
\<close>

theorem affine_transform_bijective:
  "0 \<le> affine_transform b \<and> affine_transform b \<le> 255
    \<and> (0 \<le> x \<and> x \<le> 255 \<and> 0 \<le> y \<and> y \<le> 255 \<and> x \<noteq> y
         \<longrightarrow> affine_transform x \<noteq> affine_transform y)
    \<and> bij_betw affine_transform {0..255} {0..255}"
  using is_byte_affine_transform [of b] affine_transform_inj [of x y]
    inj_on_affine_transform affine_transform_image
  by (auto simp: is_byte_def bij_betw_def)

theorem affine_transform_bijective_witness:
  "0 \<le> affine_transform 0x53 \<and> affine_transform 0x53 \<le> 255
    \<and> (0::int) \<le> 0 \<and> (0::int) \<le> 255 \<and> (0::int) \<le> 1 \<and> (1::int) \<le> 255 \<and> (0::int) \<noteq> 1
    \<and> affine_transform 0 \<noteq> affine_transform 1
    \<and> bij_betw affine_transform {0..255} {0..255}"
  using affine_transform_bijective [of "0x53" 0 1] by simp

section \<open>The generated S-box\<close>

lemma fold_list_update:
  "n \<le> length xs \<Longrightarrow> fold (\<lambda>i s. s[i := f i]) [0..<n] xs = map f [0..<n] @ drop n xs"
proof (induction n)
  case 0
  show ?case by simp
next
  case (Suc n)
  then have n: "n < length xs" by simp
  have "fold (\<lambda>i s. s[i := f i]) [0..<Suc n] xs = (map f [0..<n] @ drop n xs)[n := f n]"
    using Suc by simp
  also have "\<dots> = map f [0..<n] @ (drop n xs)[0 := f n]"
    by (simp add: list_update_append)
  also have "drop n xs = xs ! n # drop (Suc n) xs"
    using n by (simp add: Cons_nth_drop_Suc)
  finally show ?case by simp
qed

lemma generate_sbox_map:
  "generate_sbox = map (\<lambda>i. affine_transform (gf_inverse (int i))) [0..<256]"
proof -
  let ?f = "\<lambda>i. affine_transform (gf_inverse (int i))"
  have "fold (\<lambda>i s. s[i := ?f i]) [0..<256] (replicate 256 0)
      = map ?f [0..<256] @ drop 256 (replicate 256 0)"
    by (rule fold_list_update) (simp only: length_replicate order_refl)
  also have "drop 256 (replicate 256 (0::int)) = []"
    by (simp only: drop_replicate diff_self_eq_0 replicate_0)
  finally show ?thesis
    by (simp only: generate_sbox_def Let_def append_Nil2)
qed

lemma sbox_entry_inj:
  assumes "i < 256" "j < 256"
    and "affine_transform (gf_inverse (int i)) = affine_transform (gf_inverse (int j))"
  shows "i = j"
proof -
  have bi: "is_byte (int i)" and bj: "is_byte (int j)"
    using assms(1,2) unfolding is_byte_def by linarith+
  have "gf_inverse (int i) = gf_inverse (int j)"
    using is_byte_gf_inverse [OF bi] is_byte_gf_inverse [OF bj] assms(3)
    by (rule affine_transform_inj)
  then have "gf_inverse (gf_inverse (int i)) = gf_inverse (gf_inverse (int j))"
    by (rule arg_cong)
  then have "int i = int j"
    unfolding gf_inverse_involution [OF bi] gf_inverse_involution [OF bj] .
  then show ?thesis by (rule int_int_eq [THEN iffD1])
qed

lemma distinct_generate_sbox: "distinct generate_sbox"
proof -
  have "inj_on (\<lambda>i. affine_transform (gf_inverse (int i))) {0..<256}"
    by (rule inj_onI) (simp add: sbox_entry_inj)
  then show ?thesis
    by (simp only: generate_sbox_map distinct_map distinct_upt set_upt simp_thms)
qed

lemma length_generate_sbox: "length generate_sbox = 256"
  by (simp only: generate_sbox_map length_map length_upt diff_zero)

lemma set_generate_sbox: "set generate_sbox = {0..255}"
proof (rule card_subset_eq)
  show "finite {0..255::int}" by simp
  show "set generate_sbox \<subseteq> {0..255}"
  proof
    fix y
    assume "y \<in> set generate_sbox"
    then obtain i where "y = affine_transform (gf_inverse (int i))"
      unfolding generate_sbox_map set_map by blast
    then show "y \<in> {0..255}"
      using is_byte_affine_transform [of "gf_inverse (int i)"] by (simp add: is_byte_def)
  qed
  show "card (set generate_sbox) = card {0..255::int}"
    using distinct_card [OF distinct_generate_sbox] by (simp add: length_generate_sbox)
qed

lemma distinct_count_list: "distinct xs \<Longrightarrow> x \<in> set xs \<Longrightarrow> count_list xs x = 1"
  by (induction xs) auto

text \<open>
  Claim C2. The sequence returned by \<^verbatim>\<open>generate_sbox()\<close> is a permutation of [0, 255]:
  it has exactly 256 entries and every value in [0, 255] appears exactly once.
\<close>

theorem generate_sbox_permutation:
  "length generate_sbox = 256
    \<and> (0 \<le> y \<and> y \<le> 255 \<longrightarrow> count_list generate_sbox y = 1)
    \<and> distinct generate_sbox \<and> set generate_sbox = {0..255}"
  using distinct_count_list [OF distinct_generate_sbox, of y]
  by (simp add: length_generate_sbox distinct_generate_sbox set_generate_sbox)

theorem generate_sbox_permutation_witness:
  "length generate_sbox = 256
    \<and> (0::int) \<le> 0x63 \<and> (0x63::int) \<le> 255 \<and> count_list generate_sbox 0x63 = 1
    \<and> distinct generate_sbox \<and> set generate_sbox = {0..255}"
  using generate_sbox_permutation [of "0x63"] by simp

lemma gf_inverse_0: "gf_inverse 0 = 0"
  by (simp add: gf_inverse_def)

lemma gf_inverse_1: "gf_inverse 1 = 1"
  by (rule gf_inverse_unique) (simp_all add: is_byte_def gf_mult_one_right)

lemma gf_mult_53_CA: "gf_mult 0x53 0xCA = 1"
  by code_simp

lemma gf_inverse_53: "gf_inverse 0x53 = 0xCA"
  by (rule gf_inverse_unique) (simp_all add: is_byte_def gf_mult_53_CA)

lemma affine_spot_values:
  "affine_transform 0 = 0x63" "affine_transform 1 = 0x7C" "affine_transform 0xCA = 0xED"
  by code_simp+

lemma py_index_generate_sbox:
  "i < 256 \<Longrightarrow> py_index generate_sbox (int i) = Inr (affine_transform (gf_inverse (int i)))"
  unfolding py_index_def generate_sbox_map by simp

text \<open>
  Claim C3. \<^verbatim>\<open>generate_sbox()\<close> reproduces the published AES S-box at the reference
  entries: \<^verbatim>\<open>generate_sbox()[0] == 0x63\<close>, \<^verbatim>\<open>generate_sbox()[1] == 0x7C\<close> and
  \<^verbatim>\<open>generate_sbox()[0x53] == 0xED\<close>.
\<close>

theorem generate_sbox_reference_entries:
  "py_index generate_sbox 0 = Inr 0x63 \<and> py_index generate_sbox 1 = Inr 0x7C
    \<and> py_index generate_sbox 0x53 = Inr 0xED"
  using py_index_generate_sbox [of 0] py_index_generate_sbox [of 1] py_index_generate_sbox [of "0x53"]
  by (simp add: gf_inverse_0 gf_inverse_1 gf_inverse_53 affine_spot_values)

section \<open>The non-linearity analysis\<close>

subsection \<open>What the three nested iterations compute\<close>

lemma length_make_parity_table: "length make_parity_table = 256"
  by (simp add: make_parity_table_def)

lemma py_index_parity_table:
  assumes "0 \<le> i" "i \<le> 255"
  shows "py_index make_parity_table i = Inr (parity i)"
proof -
  have "[0..255] ! nat i = 0 + int (nat i)"
    using assms by (intro nth_upto) simp
  then have "make_parity_table ! nat i = parity i"
    using assms by (simp add: make_parity_table_def parity_def)
  then show ?thesis
    using assms by (simp add: py_index_def length_make_parity_table)
qed

lemma and_byte_right: "0 \<le> x \<Longrightarrow> x \<le> 255 \<Longrightarrow> 0 \<le> u AND x \<and> u AND x \<le> 255" for u x :: int
  using AND_upper2' [of x 255 u] by simp

lemma and_byte_left: "0 \<le> v \<Longrightarrow> v \<le> 255 \<Longrightarrow> 0 \<le> v AND y \<and> v AND y \<le> 255" for v y :: int
  using AND_upper1' [of v 255 y] by simp

lemma count_matches_eq:
  assumes "0 \<le> v" "v \<le> 255"
    and "\<forall>x\<in>set xs. 0 \<le> x \<and> x \<le> 255 \<and> x < int (length sbox)"
  shows "count_matches make_parity_table sbox u v xs m
       = Inr (m + int (length (filter (\<lambda>x. parity (u AND x) = parity (v AND sbox ! nat x)) xs)))"
  using assms(3)
proof (induction xs arbitrary: m)
  case Nil
  show ?case by simp
next
  case (Cons x xs)
  then have x: "0 \<le> x" "x \<le> 255" "x < int (length sbox)"
    by simp_all
  have 1: "py_index sbox x = Inr (sbox ! nat x)"
    using x by (simp add: py_index_def)
  have 2: "py_index make_parity_table (u AND x) = Inr (parity (u AND x))"
    using and_byte_right [OF x(1,2), of u] by (intro py_index_parity_table) simp_all
  have 3: "py_index make_parity_table (v AND sbox ! nat x) = Inr (parity (v AND sbox ! nat x))"
    using and_byte_left [OF assms(1,2), of "sbox ! nat x"] by (intro py_index_parity_table) simp_all
  show ?case
    using Cons by (simp add: 1 2 3)
qed

lemma count_matches_all:
  assumes "0 \<le> v" "v \<le> 255" "256 \<le> length sbox"
  shows "count_matches make_parity_table sbox u v [0..255] 0 = Inr (matches_count sbox u v)"
  unfolding matches_count_def
  using assms by (subst count_matches_eq) auto


lemma Max_insert_max:
  "finite A \<Longrightarrow> Max (insert (max a b) A) = Max (insert a (insert b A))" for a b :: int
  by (cases "A = {}") (simp_all add: max.assoc)

lemma Max_insert_Max:
  "finite A \<Longrightarrow> finite C \<Longrightarrow> Max (insert (Max (insert a A)) C) = Max (insert a (A \<union> C))"
  for a :: int
proof -
  assume f: "finite A" "finite C"
  have "Max (insert a (A \<union> C)) = Max (insert a A \<union> insert (Max (insert a A)) C)"
  proof (rule Max_eq_if)
    show "finite (insert a (A \<union> C))" "finite (insert a A \<union> insert (Max (insert a A)) C)"
      using f by simp_all
    show "\<forall>x\<in>insert a (A \<union> C). \<exists>y\<in>insert a A \<union> insert (Max (insert a A)) C. x \<le> y"
      by auto
    show "\<forall>y\<in>insert a A \<union> insert (Max (insert a A)) C. \<exists>x\<in>insert a (A \<union> C). y \<le> x"
    proof
      fix y
      assume y: "y \<in> insert a A \<union> insert (Max (insert a A)) C"
      have "Max (insert a A) \<in> insert a A"
        using f by (intro Max_in) simp_all
      with y have "y \<in> insert a (A \<union> C)" by auto
      then show "\<exists>x\<in>insert a (A \<union> C). y \<le> x" by auto
    qed
  qed
  also have "\<dots> = Max (insert (Max (insert a A)) C)"
  proof (rule Max_eq_if)
    show "finite (insert a A \<union> insert (Max (insert a A)) C)" "finite (insert (Max (insert a A)) C)"
      using f by simp_all
    show "\<forall>x\<in>insert a A \<union> insert (Max (insert a A)) C. \<exists>y\<in>insert (Max (insert a A)) C. x \<le> y"
    proof
      fix x
      assume "x \<in> insert a A \<union> insert (Max (insert a A)) C"
      then consider "x \<in> insert a A" | "x \<in> insert (Max (insert a A)) C" by auto
      then show "\<exists>y\<in>insert (Max (insert a A)) C. x \<le> y"
      proof cases
        case 1
        then have "x \<le> Max (insert a A)" using f by (intro Max_ge) simp_all
        then show ?thesis by auto
      next
        case 2
        then show ?thesis by auto
      qed
    qed
    show "\<forall>y\<in>insert (Max (insert a A)) C. \<exists>x\<in>insert a A \<union> insert (Max (insert a A)) C. y \<le> x"
      by auto
  qed
  finally show ?thesis by simp
qed

lemma input_mask_loop_eq:
  assumes "0 \<le> v" "v \<le> 255" "256 \<le> length sbox"
  shows "input_mask_loop make_parity_table sbox v us m
       = Inr (Max (insert m ((\<lambda>u. bias sbox u v) ` set us)))"
proof (induction us arbitrary: m)
  case Nil
  show ?case by simp
next
  case (Cons u us)
  have "(if m < bias sbox u v then bias sbox u v else m) = max m (bias sbox u v)"
    by (simp add: max_def)
  then show ?case
    by (simp add: count_matches_all [OF assms] Cons bias_def [symmetric] Max_insert_max)
qed

lemma output_mask_loop_eq:
  assumes "\<forall>v\<in>set vs. 0 \<le> v \<and> v \<le> 255" "256 \<le> length sbox"
  shows "output_mask_loop make_parity_table sbox vs m
       = Inr (Max (insert m ((\<lambda>(u, v). bias sbox u v) ` ({1..255} \<times> set vs))))"
  using assms(1)
proof (induction vs arbitrary: m)
  case Nil
  show ?case by simp
next
  case (Cons v vs)
  then have v: "0 \<le> v" "v \<le> 255" by simp_all
  let ?A = "(\<lambda>u. bias sbox u v) ` {1..255}"
  let ?C = "(\<lambda>(u, v). bias sbox u v) ` ({1..255} \<times> set vs)"
  have A: "?A = (\<lambda>(u, v). bias sbox u v) ` ({1..255} \<times> {v})"
    by auto
  have "output_mask_loop make_parity_table sbox (v # vs) m = Inr (Max (insert (Max (insert m ?A)) ?C))"
    using Cons by (simp add: input_mask_loop_eq [OF v assms(2)])
  also have "Max (insert (Max (insert m ?A)) ?C) = Max (insert m (?A \<union> ?C))"
    by (rule Max_insert_Max) simp_all
  also have "?A \<union> ?C = (\<lambda>(u, v). bias sbox u v) ` ({1..255} \<times> set (v # vs))"
    unfolding A image_Un [symmetric] by (rule arg_cong [where f = "image _"]) auto
  finally show ?case .
qed

lemma matches_count_bounds: "0 \<le> matches_count sbox u v \<and> matches_count sbox u v \<le> 256"
proof -
  have "length (filter (\<lambda>x. parity (u AND x) = parity (v AND sbox ! nat x)) [0..255]) \<le> length [0..255::int]"
    by (rule length_filter_le)
  then show ?thesis by (simp add: matches_count_def)
qed

lemma bias_bounds: "0 \<le> bias sbox u v \<and> bias sbox u v \<le> 128"
  using matches_count_bounds [of sbox u v] unfolding bias_def by linarith

lemma max_bias_bounds: "0 \<le> max_bias sbox \<and> max_bias sbox \<le> 128"
proof -
  let ?S = "(\<lambda>(u, v). bias sbox u v) ` ({1..255} \<times> {1..255})"
  have fin: "finite ?S" and ne: "?S \<noteq> {}" by simp_all
  have "Max ?S \<in> ?S" using fin ne by (rule Max_in)
  then obtain p where "Max ?S = (case p of (u, v) \<Rightarrow> bias sbox u v)" by blast
  then have "Max ?S = bias sbox (fst p) (snd p)" by (simp add: case_prod_beta)
  then show ?thesis
    using bias_bounds [of sbox "fst p" "snd p"] by (simp add: max_bias_def)
qed

lemma calculate_non_linearity_eq:
  assumes "256 \<le> length sbox"
  shows "calculate_non_linearity sbox = Inr (128 - max_bias sbox)"
proof -
  let ?S = "(\<lambda>(u, v). bias sbox u v) ` ({1..255} \<times> {1..255})"
  have "output_mask_loop make_parity_table sbox [1..255] 0 = Inr (Max (insert 0 ?S))"
    using assms by (subst output_mask_loop_eq) auto
  moreover have "Max (insert 0 ?S) = max 0 (Max ?S)"
    by (rule Max_insert) simp_all
  moreover have "0 \<le> Max ?S"
    using max_bias_bounds [of sbox] by (simp add: max_bias_def)
  ultimately show ?thesis
    by (simp add: calculate_non_linearity_def max_bias_def)
qed

text \<open>
  Claim C7. For every 256-entry sequence \<open>sbox\<close> whose entries all lie in [0, 255],
  \<^verbatim>\<open>calculate_non_linearity(sbox)\<close> is an integer in [0, 128], equal to 128 minus the
  maximum over all pairs (u, v) of non-zero masks of |matches - 128|, where matches
  counts the \<open>x\<close> in [0, 255] with \<open>parity (u & x) = parity (v & sbox[x])\<close>.
\<close>

theorem calculate_non_linearity_spec:
  assumes "length sbox = 256" and "\<forall>y\<in>set sbox. 0 \<le> y \<and> y \<le> 255"
  shows "calculate_non_linearity sbox
           = Inr (128 - Max ((\<lambda>(u, v). \<bar>matches_count sbox u v - 128\<bar>)
                               ` ({1..255} \<times> {1..255})))
         \<and> 0 \<le> 128 - Max ((\<lambda>(u, v). \<bar>matches_count sbox u v - 128\<bar>)
                               ` ({1..255} \<times> {1..255}))
         \<and> 128 - Max ((\<lambda>(u, v). \<bar>matches_count sbox u v - 128\<bar>)
                               ` ({1..255} \<times> {1..255})) \<le> 128"
proof -
  have "calculate_non_linearity sbox = Inr (128 - max_bias sbox)"
    using assms(1) by (intro calculate_non_linearity_eq) simp
  moreover have "0 \<le> 128 - max_bias sbox" "128 - max_bias sbox \<le> 128"
    using max_bias_bounds [of sbox] by simp_all
  ultimately show ?thesis
    by (simp only: max_bias_def bias_def simp_thms)
qed

theorem calculate_non_linearity_spec_witness:
  "length [0..255] = 256
    \<and> calculate_non_linearity [0..255]
           = Inr (128 - Max ((\<lambda>(u, v). \<bar>matches_count [0..255] u v - 128\<bar>)
                               ` ({1..255} \<times> {1..255})))
    \<and> 0 \<le> 128 - Max ((\<lambda>(u, v). \<bar>matches_count [0..255] u v - 128\<bar>)
                               ` ({1..255} \<times> {1..255}))
    \<and> 128 - Max ((\<lambda>(u, v). \<bar>matches_count [0..255] u v - 128\<bar>)
                               ` ({1..255} \<times> {1..255})) \<le> 128"
proof -
  have h1: "length [0..255] = 256" by simp
  have h2: "\<forall>y\<in>set [0..255]. 0 \<le> y \<and> y \<le> 255" by simp
  show ?thesis
    using calculate_non_linearity_spec [OF h1 h2] h1 by (simp only: simp_thms)
qed

subsection \<open>Bounding the biases with a fast Walsh-Hadamard transform\<close>

lemma count_ones_rec: "count_ones n = n mod 2 + count_ones (n div 2)"
  by (cases n) simp_all

lemma mask_odd_rec: "mask_odd u x = ((odd u \<and> odd x) \<noteq> mask_odd (u div 2) (x div 2))"
proof -
  have "u AND x = of_bool (odd u \<and> odd x) + 2 * ((u div 2) AND (x div 2))"
    by (rule and_rec)
  then have "count_ones (u AND x) = of_bool (odd u \<and> odd x) + count_ones ((u div 2) AND (x div 2))"
    by (subst count_ones_rec) simp
  then show ?thesis
    by (auto simp: mask_odd_def)
qed

lemma mask_odd_even: "mask_odd u (2 * x) = mask_odd (u div 2) x"
  by (subst mask_odd_rec) simp

lemma mask_odd_odd: "mask_odd u (Suc (2 * x)) = (odd u \<noteq> mask_odd (u div 2) x)"
  by (subst mask_odd_rec) simp

lemma sum_pairs: "(\<Sum>x<2 * n. f x) = (\<Sum>x<n. f (2 * x) + f (Suc (2 * x)))" for f :: "nat \<Rightarrow> int"
  by (induction n) simp_all

lemma length_pair_sums: "length (pair_sums xs) = length xs div 2"
  by (induction xs rule: pair_sums.induct) simp_all

lemma length_pair_diffs: "length (pair_diffs xs) = length xs div 2"
  by (induction xs rule: pair_diffs.induct) simp_all

lemma nth_pair_sums:
  "x < length xs div 2 \<Longrightarrow> pair_sums xs ! x = xs ! (2 * x) + xs ! Suc (2 * x)"
proof (induction xs arbitrary: x rule: pair_sums.induct)
  case (1 a b xs)
  then show ?case by (cases x) simp_all
qed simp_all

lemma nth_pair_diffs:
  "x < length xs div 2 \<Longrightarrow> pair_diffs xs ! x = xs ! (2 * x) - xs ! Suc (2 * x)"
proof (induction xs arbitrary: x rule: pair_diffs.induct)
  case (1 a b xs)
  then show ?case by (cases x) simp_all
qed simp_all

lemma walsh_Suc:
  assumes "length xs = 2 ^ Suc k"
  shows "walsh (Suc k) xs u
       = walsh k (if odd u then pair_diffs xs else pair_sums xs) (u div 2)"
proof -
  have len: "length xs div 2 = 2 ^ k"
    using assms by simp
  have step: "sign (mask_odd u (2 * x)) * a + sign (mask_odd u (Suc (2 * x))) * b
      = sign (mask_odd (u div 2) x) * (if odd u then a - b else a + b)" for x a b
    unfolding mask_odd_even mask_odd_odd
    by (cases "odd u"; cases "mask_odd (u div 2) x") (simp_all add: sign_def)
  have "walsh (Suc k) xs u
      = (\<Sum>x<2 ^ k. sign (mask_odd u (2 * x)) * xs ! (2 * x)
                    + sign (mask_odd u (Suc (2 * x))) * xs ! Suc (2 * x))"
    unfolding walsh_def power_Suc by (rule sum_pairs)
  also have "\<dots> = (\<Sum>x<2 ^ k. sign (mask_odd (u div 2) x)
                      * (if odd u then xs ! (2 * x) - xs ! Suc (2 * x)
                         else xs ! (2 * x) + xs ! Suc (2 * x)))"
    by (rule sum.cong) (simp_all only: step)
  also have "\<dots> = (\<Sum>x<2 ^ k. sign (mask_odd (u div 2) x)
                      * (if odd u then pair_diffs xs else pair_sums xs) ! x)"
    by (rule sum.cong) (simp_all add: nth_pair_sums nth_pair_diffs len)
  finally show ?thesis
    by (simp only: walsh_def)
qed

lemma wht_bounded_walsh:
  "length xs = 2 ^ k \<Longrightarrow> wht_bounded k B xs \<Longrightarrow> \<bar>walsh k xs u\<bar> \<le> B"
proof (induction k arbitrary: xs u)
  case 0
  then obtain w where "xs = [w]"
    by (cases xs) simp_all
  with 0 show ?case
    by (simp add: walsh_def sign_def mask_odd_def)
next
  case (Suc k)
  let ?ys = "if odd u then pair_diffs xs else pair_sums xs"
  have "length ?ys = 2 ^ k"
    using Suc.prems(1) by (simp add: length_pair_sums length_pair_diffs)
  moreover have "wht_bounded k B ?ys"
    using Suc.prems(2) by simp
  ultimately have "\<bar>walsh k ?ys (u div 2)\<bar> \<le> B"
    by (rule Suc.IH)
  then show ?case
    by (simp only: walsh_Suc [OF Suc.prems(1)])
qed

lemma map_int_upt: "map int [0..<n] = [0..int n - 1]"
proof (induction n)
  case 0
  show ?case by simp
next
  case (Suc n)
  have "[0..int (Suc n) - 1] = [0..int n - 1] @ [int n]"
    using upto_rec2 [of 0 "int n"] by simp
  with Suc show ?case by simp
qed

lemma upto_255: "[0..255] = map int [0..<256]"
  using map_int_upt [of 256] by simp

lemma length_filter_sum: "int (length (filter Q [0..<n])) = (\<Sum>x<n. of_bool (Q x))"
  by (induction n) simp_all

lemma odd_bin_count_ones: "odd (bin_count_ones (int u AND int x)) = mask_odd u x"
proof -
  have "int u AND int x = int (u AND x)"
    by (simp add: of_nat_and_eq)
  then show ?thesis
    by (simp add: bin_count_ones_def mask_odd_def)
qed

lemma parity_eq_iff: "parity a = parity b \<longleftrightarrow> odd (bin_count_ones a) = odd (bin_count_ones b)"
  unfolding parity_def by presburger

lemma sign_mult: "sign a * sign b = 2 * of_bool (a = b) - 1"
  by (cases a; cases b) (simp_all add: sign_def)

lemma matches_count_walsh:
  assumes "length sbox = 256" "0 \<le> u"
  shows "2 * matches_count sbox u v - 256 = walsh 8 (map (out_sign v) sbox) (nat u)"
proof -
  let ?Q = "\<lambda>x. parity (u AND int x) = parity (v AND sbox ! x)"
  have u: "u = int (nat u)"
    using assms(2) by simp
  have "matches_count sbox u v = int (length (filter ?Q [0..<256]))"
    by (simp add: matches_count_def upto_255 filter_map comp_def)
  also have "\<dots> = (\<Sum>x<256. of_bool (?Q x))"
    by (rule length_filter_sum)
  finally have "2 * matches_count sbox u v - 256 = (\<Sum>x<256. 2 * of_bool (?Q x) - 1)"
    by (simp add: sum_subtractf sum_distrib_left)
  also have "\<dots> = (\<Sum>x<256. sign (mask_odd (nat u) x) * map (out_sign v) sbox ! x)"
  proof (rule sum.cong)
    fix x
    assume "x \<in> {..<256::nat}"
    then have x: "x < length sbox"
      using assms(1) by simp
    have "odd (bin_count_ones (u AND int x)) = mask_odd (nat u) x"
      using odd_bin_count_ones [of "nat u" x] u by simp
    then show "2 * of_bool (?Q x) - 1 = sign (mask_odd (nat u) x) * map (out_sign v) sbox ! x"
      using x by (simp add: parity_eq_iff sign_mult out_sign_def)
  qed simp
  finally show ?thesis
    by (simp add: walsh_def)
qed

lemma bias_le_16:
  assumes "length sbox = 256" "0 \<le> u" "wht_bounded 8 32 (map (out_sign v) sbox)"
  shows "bias sbox u v \<le> 16"
proof -
  have "\<bar>walsh 8 (map (out_sign v) sbox) (nat u)\<bar> \<le> 32"
    using assms(1,3) by (intro wht_bounded_walsh) simp_all
  then have "\<bar>2 * matches_count sbox u v - 256\<bar> \<le> 32"
    by (simp only: matches_count_walsh [OF assms(1,2)])
  then show ?thesis
    unfolding bias_def by linarith
qed

section \<open>The generated S-box is the AES S-box, of non-linearity 112\<close>

lemma inverse_table_products: "inverse_pairs_ok [1..255] (tl aes_inverse_table)"
  by code_simp

lemma affine_of_inverse_table: "map affine_transform aes_inverse_table = aes_sbox"
  by code_simp

lemma mask_odd_0: "mask_odd 0 x = False" "mask_odd u 0 = False"
  by (simp_all add: mask_odd_def)

lemma mask_odd_numeral: "mask_odd (numeral m) (numeral n) = mask_parity m n"
proof (induction m n rule: mask_parity.induct)
  case 1
  show ?case by (subst mask_odd_rec) (simp add: mask_odd_0)
next
  case (2 n)
  show ?case by (subst mask_odd_rec) (simp add: mask_odd_0)
next
  case (3 n)
  show ?case by (subst mask_odd_rec) (simp add: mask_odd_0)
next
  case (4 m)
  show ?case by (subst mask_odd_rec) (simp add: mask_odd_0)
next
  case (5 m n)
  then show ?case by (subst mask_odd_rec) simp
next
  case (6 m n)
  then show ?case by (subst mask_odd_rec) simp
next
  case (7 m)
  show ?case by (subst mask_odd_rec) (simp add: mask_odd_0)
next
  case (8 m n)
  then show ?case by (subst mask_odd_rec) simp
next
  case (9 m n)
  then show ?case by (subst mask_odd_rec) simp
qed

lemma out_sign_nat: "out_sign (int u) (int x) = sign (mask_odd u x)"
  by (simp only: out_sign_def odd_bin_count_ones)

lemma mask_odd_one:
  "mask_odd (numeral m) (Suc 0) = mask_parity m num.One"
  "mask_odd (Suc 0) (numeral n) = mask_parity num.One n"
  "mask_odd (Suc 0) (Suc 0) = True"
  using mask_odd_numeral [of m num.One] mask_odd_numeral [of num.One n]
    mask_odd_numeral [of num.One num.One]
  by simp_all

lemma out_sign_numeral:
  "out_sign (numeral m) (numeral n) = (if mask_parity m n then - 1 else 1)"
  "out_sign (numeral m) 1 = (if mask_parity m num.One then - 1 else 1)"
  "out_sign 1 (numeral n) = (if mask_parity num.One n then - 1 else 1)"
  "out_sign 1 1 = - 1"
  "out_sign v 0 = 1"
proof -
  show "out_sign (numeral m) (numeral n) = (if mask_parity m n then - 1 else 1)"
    using out_sign_nat [of "numeral m" "numeral n"] by (simp add: mask_odd_numeral sign_def)
  show "out_sign (numeral m) 1 = (if mask_parity m num.One then - 1 else 1)"
    using out_sign_nat [of "numeral m" 1] by (simp add: mask_odd_one sign_def)
  show "out_sign 1 (numeral n) = (if mask_parity num.One n then - 1 else 1)"
    using out_sign_nat [of 1 "numeral n"] by (simp add: mask_odd_one sign_def)
  show "out_sign 1 1 = - 1"
    using out_sign_nat [of 1 1] by (simp add: mask_odd_one sign_def)
  show "out_sign v 0 = 1"
    by (simp add: out_sign_def bin_count_ones_def sign_def)
qed

lemma wht_bounded_8:
  "wht_bounded 8 B xs = wht_bounded (Suc (Suc (Suc (Suc (Suc (Suc (Suc (Suc 0)))))))) B xs"
  by (simp add: eval_nat_numeral)

lemmas wht_eval =
  wht_bounded_8 wht_bounded.simps pair_sums.simps pair_diffs.simps mask_parity.simps
  out_sign_numeral aes_sbox_def aes_mask_ok_def list.map list.pred_inject
  arith_simps arith_special more_arith_simps rel_simps simp_thms if_True if_False
  abs_minus_cancel numeral_One

lemma aes_masks_00: "list_all aes_mask_ok [1..15]"
proof -
  have "list_all aes_mask_ok
      [0x01, 0x02, 0x03, 0x04, 0x05, 0x06, 0x07, 0x08, 0x09, 0x0A, 0x0B, 0x0C, 0x0D, 0x0E, 0x0F]"
    by (simp only: wht_eval)
  then show ?thesis by (simp add: upto_from_1)
qed

lemma aes_masks_10: "list_all aes_mask_ok [16..31]"
proof -
  have "list_all aes_mask_ok
      [0x10, 0x11, 0x12, 0x13, 0x14, 0x15, 0x16, 0x17, 0x18, 0x19, 0x1A, 0x1B, 0x1C, 0x1D, 0x1E, 0x1F]"
    by (simp only: wht_eval)
  then show ?thesis by (simp)
qed

lemma aes_masks_20: "list_all aes_mask_ok [32..47]"
proof -
  have "list_all aes_mask_ok
      [0x20, 0x21, 0x22, 0x23, 0x24, 0x25, 0x26, 0x27, 0x28, 0x29, 0x2A, 0x2B, 0x2C, 0x2D, 0x2E, 0x2F]"
    by (simp only: wht_eval)
  then show ?thesis by (simp)
qed

lemma aes_masks_30: "list_all aes_mask_ok [48..63]"
proof -
  have "list_all aes_mask_ok
      [0x30, 0x31, 0x32, 0x33, 0x34, 0x35, 0x36, 0x37, 0x38, 0x39, 0x3A, 0x3B, 0x3C, 0x3D, 0x3E, 0x3F]"
    by (simp only: wht_eval)
  then show ?thesis by (simp)
qed

lemma aes_masks_40: "list_all aes_mask_ok [64..79]"
proof -
  have "list_all aes_mask_ok
      [0x40, 0x41, 0x42, 0x43, 0x44, 0x45, 0x46, 0x47, 0x48, 0x49, 0x4A, 0x4B, 0x4C, 0x4D, 0x4E, 0x4F]"
    by (simp only: wht_eval)
  then show ?thesis by (simp)
qed

lemma aes_masks_50: "list_all aes_mask_ok [80..95]"
proof -
  have "list_all aes_mask_ok
      [0x50, 0x51, 0x52, 0x53, 0x54, 0x55, 0x56, 0x57, 0x58, 0x59, 0x5A, 0x5B, 0x5C, 0x5D, 0x5E, 0x5F]"
    by (simp only: wht_eval)
  then show ?thesis by (simp)
qed

lemma aes_masks_60: "list_all aes_mask_ok [96..111]"
proof -
  have "list_all aes_mask_ok
      [0x60, 0x61, 0x62, 0x63, 0x64, 0x65, 0x66, 0x67, 0x68, 0x69, 0x6A, 0x6B, 0x6C, 0x6D, 0x6E, 0x6F]"
    by (simp only: wht_eval)
  then show ?thesis by (simp)
qed

lemma aes_masks_70: "list_all aes_mask_ok [112..127]"
proof -
  have "list_all aes_mask_ok
      [0x70, 0x71, 0x72, 0x73, 0x74, 0x75, 0x76, 0x77, 0x78, 0x79, 0x7A, 0x7B, 0x7C, 0x7D, 0x7E, 0x7F]"
    by (simp only: wht_eval)
  then show ?thesis by (simp)
qed

lemma aes_masks_80: "list_all aes_mask_ok [128..143]"
proof -
  have "list_all aes_mask_ok
      [0x80, 0x81, 0x82, 0x83, 0x84, 0x85, 0x86, 0x87, 0x88, 0x89, 0x8A, 0x8B, 0x8C, 0x8D, 0x8E, 0x8F]"
    by (simp only: wht_eval)
  then show ?thesis by (simp)
qed

lemma aes_masks_90: "list_all aes_mask_ok [144..159]"
proof -
  have "list_all aes_mask_ok
      [0x90, 0x91, 0x92, 0x93, 0x94, 0x95, 0x96, 0x97, 0x98, 0x99, 0x9A, 0x9B, 0x9C, 0x9D, 0x9E, 0x9F]"
    by (simp only: wht_eval)
  then show ?thesis by (simp)
qed

lemma aes_masks_A0: "list_all aes_mask_ok [160..175]"
proof -
  have "list_all aes_mask_ok
      [0xA0, 0xA1, 0xA2, 0xA3, 0xA4, 0xA5, 0xA6, 0xA7, 0xA8, 0xA9, 0xAA, 0xAB, 0xAC, 0xAD, 0xAE, 0xAF]"
    by (simp only: wht_eval)
  then show ?thesis by (simp)
qed

lemma aes_masks_B0: "list_all aes_mask_ok [176..191]"
proof -
  have "list_all aes_mask_ok
      [0xB0, 0xB1, 0xB2, 0xB3, 0xB4, 0xB5, 0xB6, 0xB7, 0xB8, 0xB9, 0xBA, 0xBB, 0xBC, 0xBD, 0xBE, 0xBF]"
    by (simp only: wht_eval)
  then show ?thesis by (simp)
qed

lemma aes_masks_C0: "list_all aes_mask_ok [192..207]"
proof -
  have "list_all aes_mask_ok
      [0xC0, 0xC1, 0xC2, 0xC3, 0xC4, 0xC5, 0xC6, 0xC7, 0xC8, 0xC9, 0xCA, 0xCB, 0xCC, 0xCD, 0xCE, 0xCF]"
    by (simp only: wht_eval)
  then show ?thesis by (simp)
qed

lemma aes_masks_D0: "list_all aes_mask_ok [208..223]"
proof -
  have "list_all aes_mask_ok
      [0xD0, 0xD1, 0xD2, 0xD3, 0xD4, 0xD5, 0xD6, 0xD7, 0xD8, 0xD9, 0xDA, 0xDB, 0xDC, 0xDD, 0xDE, 0xDF]"
    by (simp only: wht_eval)
  then show ?thesis by (simp)
qed

lemma aes_masks_E0: "list_all aes_mask_ok [224..239]"
proof -
  have "list_all aes_mask_ok
      [0xE0, 0xE1, 0xE2, 0xE3, 0xE4, 0xE5, 0xE6, 0xE7, 0xE8, 0xE9, 0xEA, 0xEB, 0xEC, 0xED, 0xEE, 0xEF]"
    by (simp only: wht_eval)
  then show ?thesis by (simp)
qed

lemma aes_masks_F0: "list_all aes_mask_ok [240..255]"
proof -
  have "list_all aes_mask_ok
      [0xF0, 0xF1, 0xF2, 0xF3, 0xF4, 0xF5, 0xF6, 0xF7, 0xF8, 0xF9, 0xFA, 0xFB, 0xFC, 0xFD, 0xFE, 0xFF]"
    by (simp only: wht_eval)
  then show ?thesis by (simp)
qed

lemma list_all_upto_join:
  assumes "list_all P [a..b]" "list_all P [c..d]" "c \<le> b + 1"
  shows "list_all P [a..d]"
  unfolding list_all_iff
proof
  fix x
  assume "x \<in> set [a..d]"
  then have x: "a \<le> x" "x \<le> d" by simp_all
  show "P x"
  proof (cases "x \<le> b")
    case True
    with x assms(1) show ?thesis by (simp add: list_all_iff)
  next
    case False
    with assms(3) have "c \<le> x" by simp
    with x assms(2) show ?thesis by (simp add: list_all_iff)
  qed
qed

lemma aes_masks_all:
  assumes "1 \<le> v" "v \<le> 255"
  shows "aes_mask_ok v"
proof -
  have m1: "list_all aes_mask_ok [1..31]"
    by (rule list_all_upto_join [OF aes_masks_00 aes_masks_10]) simp
  have m2: "list_all aes_mask_ok [1..47]"
    by (rule list_all_upto_join [OF m1 aes_masks_20]) simp
  have m3: "list_all aes_mask_ok [1..63]"
    by (rule list_all_upto_join [OF m2 aes_masks_30]) simp
  have m4: "list_all aes_mask_ok [1..79]"
    by (rule list_all_upto_join [OF m3 aes_masks_40]) simp
  have m5: "list_all aes_mask_ok [1..95]"
    by (rule list_all_upto_join [OF m4 aes_masks_50]) simp
  have m6: "list_all aes_mask_ok [1..111]"
    by (rule list_all_upto_join [OF m5 aes_masks_60]) simp
  have m7: "list_all aes_mask_ok [1..127]"
    by (rule list_all_upto_join [OF m6 aes_masks_70]) simp
  have m8: "list_all aes_mask_ok [1..143]"
    by (rule list_all_upto_join [OF m7 aes_masks_80]) simp
  have m9: "list_all aes_mask_ok [1..159]"
    by (rule list_all_upto_join [OF m8 aes_masks_90]) simp
  have m10: "list_all aes_mask_ok [1..175]"
    by (rule list_all_upto_join [OF m9 aes_masks_A0]) simp
  have m11: "list_all aes_mask_ok [1..191]"
    by (rule list_all_upto_join [OF m10 aes_masks_B0]) simp
  have m12: "list_all aes_mask_ok [1..207]"
    by (rule list_all_upto_join [OF m11 aes_masks_C0]) simp
  have m13: "list_all aes_mask_ok [1..223]"
    by (rule list_all_upto_join [OF m12 aes_masks_D0]) simp
  have m14: "list_all aes_mask_ok [1..239]"
    by (rule list_all_upto_join [OF m13 aes_masks_E0]) simp
  have m15: "list_all aes_mask_ok [1..255]"
    by (rule list_all_upto_join [OF m14 aes_masks_F0]) simp
  have "v \<in> set [1..255]"
    using assms by (simp only: set_upto atLeastAtMost_iff simp_thms)
  with m15 show ?thesis
    unfolding list_all_iff by (rule bspec)
qed

lemma walsh_at: "length xs = 2 ^ k \<Longrightarrow> walsh k xs u = walsh_at k xs u"
proof (induction k arbitrary: xs u)
  case 0
  then obtain w where "xs = [w]"
    by (cases xs) simp_all
  then show ?case
    by (simp add: walsh_def sign_def mask_odd_def)
next
  case (Suc k)
  let ?ys = "if odd u then pair_diffs xs else pair_sums xs"
  have "length ?ys = 2 ^ k"
    using Suc.prems by (simp add: length_pair_sums length_pair_diffs)
  then have "walsh k ?ys (u div 2) = walsh_at k ?ys (u div 2)"
    by (rule Suc.IH)
  then show ?case
    by (simp only: walsh_Suc [OF Suc.prems] walsh_at.simps)
qed

lemma length_aes_sbox: "length aes_sbox = 256"
  by (simp add: aes_sbox_def)

lemma walsh_at_8:
  "walsh_at 8 xs u = walsh_at (Suc (Suc (Suc (Suc (Suc (Suc (Suc (Suc 0)))))))) xs u"
  by (simp add: eval_nat_numeral)

lemma walsh_at_45_1: "walsh_at 8 (map (out_sign 1) aes_sbox) 45 = - 32"
  by (simp add: walsh_at_8 aes_sbox_def out_sign_numeral)

lemma matches_count_45_1: "matches_count aes_sbox 45 1 = 112"
proof -
  have "2 * matches_count aes_sbox 45 1 - 256 = walsh 8 (map (out_sign 1) aes_sbox) (nat 45)"
    by (rule matches_count_walsh) (simp_all add: length_aes_sbox)
  also have "\<dots> = walsh_at 8 (map (out_sign 1) aes_sbox) 45"
    by (subst walsh_at) (simp_all add: length_aes_sbox)
  finally show ?thesis
    by (simp add: walsh_at_45_1)
qed

lemma max_bias_aes_sbox: "max_bias aes_sbox = 16"
  unfolding max_bias_def
proof (rule Max_eqI)
  show "finite ((\<lambda>(u, v). bias aes_sbox u v) ` ({1..255} \<times> {1..255}))"
    by simp
  show "16 \<in> (\<lambda>(u, v). bias aes_sbox u v) ` ({1..255} \<times> {1..255})"
  proof
    show "16 = (case (45 :: int, 1 :: int) of (u, v) \<Rightarrow> bias aes_sbox u v)"
      by (simp add: bias_def matches_count_45_1)
    show "(45 :: int, 1 :: int) \<in> {1..255} \<times> {1..255}"
      by simp
  qed
  fix y
  assume "y \<in> (\<lambda>(u, v). bias aes_sbox u v) ` ({1..255} \<times> {1..255})"
  then obtain u v where y: "y = bias aes_sbox u v" and u: "1 \<le> u" and v: "1 \<le> v" "v \<le> 255"
    by auto
  have "aes_mask_ok v"
    using v by (rule aes_masks_all)
  then show "y \<le> 16"
    unfolding y aes_mask_ok_def using u by (intro bias_le_16) (simp_all add: length_aes_sbox)
qed

lemma gf_inverse_table: "map gf_inverse [0..255] = aes_inverse_table"
proof -
  have len: "length aes_inverse_table = 256"
    unfolding aes_inverse_table_def by simp
  have bytes: "list_all is_byte (tl aes_inverse_table)"
    unfolding aes_inverse_table_def by (simp add: is_byte_def)
  have "map gf_inverse [1..255] = tl aes_inverse_table"
  proof (rule nth_equalityI)
    show "length (map gf_inverse [1..255]) = length (tl aes_inverse_table)"
      by (simp add: len)
    fix i
    assume "i < length (map gf_inverse [1..255])"
    then have i: "i < 255" by simp
    then have a: "[1..255] ! i = 1 + int i"
      by (intro nth_upto) simp
    have "gf_mult ([1..255] ! i) (tl aes_inverse_table ! i) = 1"
      using inverse_table_products i
      unfolding inverse_pairs_ok_def list_all2_conv_all_nth by simp
    moreover have "is_byte (tl aes_inverse_table ! i)"
      using bytes i len unfolding list_all_length by simp
    moreover have "is_byte ([1..255] ! i)"
      using i unfolding a is_byte_def by linarith
    ultimately have "gf_inverse ([1..255] ! i) = tl aes_inverse_table ! i"
      by (intro gf_inverse_unique)
    then show "map gf_inverse [1..255] ! i = tl aes_inverse_table ! i"
      using i by simp
  qed
  moreover have "[0..255] = 0 # [1..255]"
    by (subst upto.simps) simp
  moreover have "aes_inverse_table = 0 # tl aes_inverse_table"
    unfolding aes_inverse_table_def by simp
  ultimately show ?thesis
    by (simp add: gf_inverse_def)
qed

lemma generate_sbox_table: "generate_sbox = aes_sbox"
proof -
  have "generate_sbox = map affine_transform (map gf_inverse (map int [0..<256]))"
    by (simp only: generate_sbox_map map_map comp_def)
  also have "map int [0..<256] = [0..255]"
    by (simp only: upto_255)
  finally show ?thesis
    by (simp only: gf_inverse_table affine_of_inverse_table)
qed

text \<open>
  Claim C1. Running the non-linearity analysis on the generated S-box returns exactly
  112: \<^verbatim>\<open>calculate_non_linearity(generate_sbox()) == 112\<close>.
\<close>

theorem aes_sbox_non_linearity: "calculate_non_linearity generate_sbox = Inr 112"
proof -
  have "calculate_non_linearity aes_sbox = Inr (128 - max_bias aes_sbox)"
    by (rule calculate_non_linearity_eq) (simp add: length_aes_sbox)
  then show ?thesis
    by (simp add: generate_sbox_table max_bias_aes_sbox)
qed

end
